theory Spec2Isabelle
  imports Complex_Main "HOL-Library.Word" "HOL-Library.Log_Nat"
begin

unbundle bit_operations_syntax

chapter \<open>The programs\<close>

section \<open>Codec: bytes, big-endian readers, the type table\<close>

type_synonym byte = "8 word"

type_synonym u16 = "16 word"

type_synonym u32 = "32 word"

type_synonym u64 = "64 word"

text \<open>
  A C character constant used as an array index or a \<open>case\<close> label is its ASCII code.
\<close>

definition ord :: "char \<Rightarrow> nat" where
  "ord c = of_char c"

subsection \<open>The 6-byte timestamp reader (\<open>parse_timestamp\<close>, \<open>read_timestamp\<close>)\<close>

text \<open>
  \<open>memcpy(&tmp, b, 8)\<close> on the little-endian hosts the programs are built for: the
  first byte in memory is the least significant byte of the 64-bit value.
\<close>

fun load_le :: "byte list \<Rightarrow> u64" where
  "load_le [] = 0"
| "load_le (x # xs) = ucast x OR push_bit 8 (load_le xs)"

text \<open>The bytes of a 64-bit value in memory order, least significant first.\<close>

fun store_le :: "nat \<Rightarrow> u64 \<Rightarrow> byte list" where
  "store_le 0 w = []"
| "store_le (Suc n) w = ucast w # store_le n (drop_bit 8 w)"

text \<open>\<open>__builtin_bswap64\<close>: the eight bytes of the value in reverse order.\<close>

definition bswap64 :: "u64 \<Rightarrow> u64" where
  "bswap64 x = load_le (rev (store_le 8 x))"

text \<open>\<open>itch_parser.c\<close>: \<open>memcpy(&tmp, b, 8); tmp = __builtin_bswap64(tmp); return tmp >> 16;\<close>\<close>

definition parse_timestamp :: "byte list \<Rightarrow> u64" where
  "parse_timestamp b = drop_bit 16 (bswap64 (load_le (take 8 b)))"

text \<open>\<open>itch_replay_server.c\<close>: the same three statements under another name.\<close>

definition read_timestamp :: "byte list \<Rightarrow> u64" where
  "read_timestamp b = drop_bit 16 (bswap64 (load_le (take 8 b)))"

subsection \<open>Big-endian integers and trimmed ASCII (\<open>itch_parser.c\<close>)\<close>

text \<open>\<open>for (i = 0; i < nbytes; ++i) v = (v << 8) | b[i];\<close> started from \<open>v\<close>.\<close>

fun read_be_from :: "u64 \<Rightarrow> byte list \<Rightarrow> u64" where
  "read_be_from v [] = v"
| "read_be_from v (x # xs) = read_be_from (push_bit 8 v OR ucast x) xs"

definition read_be :: "byte list \<Rightarrow> nat \<Rightarrow> u64" where
  "read_be b nbytes = read_be_from 0 (take nbytes b)"

definition read_u16 :: "byte list \<Rightarrow> u16" where
  "read_u16 b = push_bit 8 (ucast (b ! 0)) OR ucast (b ! 1)"

definition read_u32 :: "byte list \<Rightarrow> u32" where
  "read_u32 b =
     push_bit 24 (ucast (b ! 0)) OR push_bit 16 (ucast (b ! 1)) OR
     push_bit 8 (ucast (b ! 2)) OR ucast (b ! 3)"

definition read_u64 :: "byte list \<Rightarrow> u64" where
  "read_u64 b = read_be b 8"

text \<open>
  \<open>read_ascii(b, len, out, outlen)\<close>: \<open>n = (len < outlen - 1) ? len : outlen - 1\<close> in
  \<open>size_t\<close> (64 bits, so \<open>outlen - 1\<close> wraps for \<open>outlen = 0\<close>), \<open>memcpy\<close> of \<open>n\<close> bytes,
  \<open>n\<close> lowered past the spaces at the right end, \<open>out[n] = 0\<close>. The result is the C string
  left in \<open>out\<close>, which is what \<open>%s\<close> prints: the bytes before the first zero byte.
\<close>

definition read_ascii :: "byte list \<Rightarrow> nat \<Rightarrow> nat \<Rightarrow> byte list" where
  "read_ascii b len outlen =
     (let room = (outlen + 2 ^ 64 - 1) mod 2 ^ 64;
          n = (if len < room then len else room);
          kept = rev (dropWhile (\<lambda>c. c = 0x20) (rev (take n b)))
      in takeWhile (\<lambda>c. c \<noteq> 0) kept)"

text \<open>
  The unsigned value a byte string denotes when read big-endian, as a natural number:
  the reference the readers are compared with.
\<close>

definition be_value :: "byte list \<Rightarrow> nat" where
  "be_value bs = foldl (\<lambda>v x. 256 * v + unat x) 0 bs"

subsection \<open>Message lengths\<close>

text \<open>\<open>message_length_by_type\<close> of \<open>itch_parser.c\<close>: a \<open>switch\<close> on the type byte.\<close>

definition message_length_by_type :: "byte \<Rightarrow> nat" where
  "message_length_by_type t =
     (if t = of_char CHR ''S'' then 12
      else if t = of_char CHR ''R'' then 39
      else if t = of_char CHR ''H'' then 25
      else if t = of_char CHR ''Y'' then 20
      else if t = of_char CHR ''L'' then 26
      else if t = of_char CHR ''V'' then 35
      else if t = of_char CHR ''W'' then 12
      else if t = of_char CHR ''K'' then 28
      else if t = of_char CHR ''A'' then 36
      else if t = of_char CHR ''F'' then 40
      else if t = of_char CHR ''E'' then 31
      else if t = of_char CHR ''C'' then 36
      else if t = of_char CHR ''X'' then 23
      else if t = of_char CHR ''D'' then 19
      else if t = of_char CHR ''U'' then 35
      else if t = of_char CHR ''P'' then 44
      else if t = of_char CHR ''Q'' then 40
      else if t = of_char CHR ''B'' then 19
      else if t = of_char CHR ''I'' then 50
      else if t = of_char CHR ''N'' then 20
      else 0)"

definition get_itch_message_length :: "byte \<Rightarrow> nat" where
  "get_itch_message_length msg_type = message_length_by_type msg_type"

text \<open>
  \<open>ITCH_MSG_LENGTHS\<close> of \<open>itch_replay_server.c\<close>: 256 bytes, zero but for the
  designated initialisers.
\<close>

definition ITCH_MSG_LENGTHS :: "byte list" where
  "ITCH_MSG_LENGTHS = (replicate 256 0)
     [ord CHR ''S'' := 12, ord CHR ''R'' := 39, ord CHR ''H'' := 25, ord CHR ''Y'' := 20,
      ord CHR ''L'' := 26, ord CHR ''V'' := 35, ord CHR ''W'' := 12, ord CHR ''K'' := 28,
      ord CHR ''A'' := 36, ord CHR ''F'' := 40, ord CHR ''E'' := 31, ord CHR ''C'' := 36,
      ord CHR ''X'' := 23, ord CHR ''D'' := 19, ord CHR ''U'' := 35, ord CHR ''P'' := 44,
      ord CHR ''Q'' := 40, ord CHR ''B'' := 19, ord CHR ''I'' := 50, ord CHR ''N'' := 20]"

definition get_message_length :: "byte \<Rightarrow> nat" where
  "get_message_length msg_type = unat (ITCH_MSG_LENGTHS ! unat msg_type)"

text \<open>The type table as the specification prints it: type character and total length.\<close>

definition canonical_table :: "(char \<times> nat) list" where
  "canonical_table =
     [(CHR ''S'', 12), (CHR ''R'', 39), (CHR ''H'', 25), (CHR ''Y'', 20), (CHR ''L'', 26),
      (CHR ''V'', 35), (CHR ''W'', 12), (CHR ''K'', 28), (CHR ''A'', 36), (CHR ''F'', 40),
      (CHR ''E'', 31), (CHR ''C'', 36), (CHR ''X'', 23), (CHR ''D'', 19), (CHR ''U'', 35),
      (CHR ''P'', 44), (CHR ''Q'', 40), (CHR ''B'', 19), (CHR ''I'', 50), (CHR ''N'', 20)]"

definition canonical_length :: "byte \<Rightarrow> nat" where
  "canonical_length t =
     (case map_of (map (\<lambda>(c, n). (of_char c :: byte, n)) canonical_table) t of
        Some n \<Rightarrow> n
      | None \<Rightarrow> 0)"

section \<open>The parser's dispatcher (\<open>itch_parser.c\<close>)\<close>

record ITCHHeader =
  messageType :: byte
  stockLocate :: u16
  trackingNumber :: u16
  timestamp :: u64

definition parse_header :: "byte list \<Rightarrow> ITCHHeader" where
  "parse_header msg =
     \<lparr>messageType = msg ! 0,
      stockLocate = read_u16 (drop 1 msg),
      trackingNumber = read_u16 (drop 3 msg),
      timestamp = parse_timestamp (drop 5 msg)\<rparr>"

text \<open>
  What a decoder prints: each \<open>printf\<close> is one line, its format text up to the first
  conversion and the values converted. \<open>Fixed4 p\<close> is the display of \<open>p / 10000.0\<close>
  with \<open>%.4f\<close>; \<open>Hex\<close> is an \<open>int\<close> printed with \<open>%02X\<close>.
\<close>

datatype field = U64 u64 | U32 u32 | Ch byte | Txt "byte list" | Fixed4 u32 | Hex u32

datatype out_line = Line string "field list"

definition parse_S :: "byte list \<Rightarrow> nat \<Rightarrow> out_line list" where
  "parse_S msg len =
     (if len < 12 then []
      else let h = parse_header msg; eventCode = msg ! 11
           in [Line ''[S] System Event'' [],
               Line ''  Timestamp: '' [U64 (timestamp h)],
               Line ''  Event Code: '' [Ch eventCode]])"

definition parse_R :: "byte list \<Rightarrow> nat \<Rightarrow> out_line list" where
  "parse_R msg len =
     (if len < 39 then []
      else let stock = read_ascii (drop 11 msg) 8 9;
               marketCategory = msg ! 19;
               financialStatus = msg ! 20;
               roundLotSize = read_u32 (drop 21 msg)
           in [Line ''[R] Stock Directory'' [],
               Line ''  Stock: '' [Txt stock],
               Line ''  Market Category: '' [Ch marketCategory],
               Line ''  Financial Status: '' [Ch financialStatus],
               Line ''  Round Lot Size: '' [U32 roundLotSize]])"

definition parse_H :: "byte list \<Rightarrow> nat \<Rightarrow> out_line list" where
  "parse_H msg len =
     (if len < 25 then []
      else let stock = read_ascii (drop 11 msg) 8 9;
               tradingState = msg ! 19;
               reason = read_ascii (drop 21 msg) 4 5
           in [Line ''[H] Stock Trading Action'' [],
               Line ''  Stock: '' [Txt stock],
               Line ''  Trading State: '' [Ch tradingState],
               Line ''  Reason: '' [Txt reason]])"

definition parse_A :: "byte list \<Rightarrow> nat \<Rightarrow> out_line list" where
  "parse_A msg len =
     (if len < 36 then []
      else let orderRefNum = read_u64 (drop 11 msg);
               buySellIndicator = msg ! 19;
               shares = read_u32 (drop 20 msg);
               stock = read_ascii (drop 24 msg) 8 9;
               price = read_u32 (drop 32 msg)
           in [Line ''[A] Add Order (No MPID)'' [],
               Line ''  Order Ref: '' [U64 orderRefNum],
               Line ''  Side: '' [Ch buySellIndicator],
               Line ''  Shares: '' [U32 shares],
               Line ''  Stock: '' [Txt stock],
               Line ''  Price: '' [U32 price, Fixed4 price]])"

definition parse_F :: "byte list \<Rightarrow> nat \<Rightarrow> out_line list" where
  "parse_F msg len =
     (if len < 40 then []
      else let orderRefNum = read_u64 (drop 11 msg);
               buySellIndicator = msg ! 19;
               shares = read_u32 (drop 20 msg);
               stock = read_ascii (drop 24 msg) 8 9;
               price = read_u32 (drop 32 msg);
               attribution = read_ascii (drop 36 msg) 4 5
           in [Line ''[F] Add Order (MPID)'' [],
               Line ''  Order Ref: '' [U64 orderRefNum],
               Line ''  Side: '' [Ch buySellIndicator],
               Line ''  Shares: '' [U32 shares],
               Line ''  Stock: '' [Txt stock],
               Line ''  Price: '' [U32 price, Fixed4 price],
               Line ''  MPID: '' [Txt attribution]])"

definition parse_E :: "byte list \<Rightarrow> nat \<Rightarrow> out_line list" where
  "parse_E msg len =
     (if len < 31 then []
      else let orderRefNum = read_u64 (drop 11 msg);
               executedShares = read_u32 (drop 19 msg);
               matchNumber = read_u64 (drop 23 msg)
           in [Line ''[E] Order Executed'' [],
               Line ''  Order Ref: '' [U64 orderRefNum],
               Line ''  Executed Shares: '' [U32 executedShares],
               Line ''  Match Number: '' [U64 matchNumber]])"

definition parse_C :: "byte list \<Rightarrow> nat \<Rightarrow> out_line list" where
  "parse_C msg len =
     (if len < 36 then []
      else let orderRefNum = read_u64 (drop 11 msg);
               executedShares = read_u32 (drop 19 msg);
               matchNumber = read_u64 (drop 23 msg);
               executionPrice = read_u32 (drop 32 msg)
           in [Line ''[C] Order Executed With Price'' [],
               Line ''  Order Ref: '' [U64 orderRefNum],
               Line ''  Executed Shares: '' [U32 executedShares],
               Line ''  Match Number: '' [U64 matchNumber],
               Line ''  Execution Price: '' [U32 executionPrice, Fixed4 executionPrice]])"

definition parse_X :: "byte list \<Rightarrow> nat \<Rightarrow> out_line list" where
  "parse_X msg len =
     (if len < 23 then []
      else let orderRefNum = read_u64 (drop 11 msg);
               cancelledShares = read_u32 (drop 19 msg)
           in [Line ''[X] Order Cancel'' [],
               Line ''  Order Ref: '' [U64 orderRefNum],
               Line ''  Cancelled Shares: '' [U32 cancelledShares]])"

definition parse_D :: "byte list \<Rightarrow> nat \<Rightarrow> out_line list" where
  "parse_D msg len =
     (if len < 19 then []
      else let orderRefNum = read_u64 (drop 11 msg)
           in [Line ''[D] Order Delete'' [],
               Line ''  Order Ref: '' [U64 orderRefNum]])"

definition parse_U :: "byte list \<Rightarrow> nat \<Rightarrow> out_line list" where
  "parse_U msg len =
     (if len < 35 then []
      else let origOrderRefNum = read_u64 (drop 11 msg);
               newOrderRefNum = read_u64 (drop 19 msg);
               shares = read_u32 (drop 27 msg);
               price = read_u32 (drop 31 msg)
           in [Line ''[U] Order Replace'' [],
               Line ''  Orig Order Ref: '' [U64 origOrderRefNum, U64 newOrderRefNum],
               Line ''  Shares: '' [U32 shares],
               Line ''  Price: '' [U32 price, Fixed4 price]])"

definition parse_P :: "byte list \<Rightarrow> nat \<Rightarrow> out_line list" where
  "parse_P msg len =
     (if len < 44 then []
      else let orderRefNum = read_u64 (drop 11 msg);
               buySellIndicator = msg ! 19;
               shares = read_u32 (drop 20 msg);
               stock = read_ascii (drop 24 msg) 8 9;
               price = read_u32 (drop 32 msg);
               matchNumber = read_u64 (drop 36 msg)
           in [Line ''[P] Trade (Non-Cross)'' [],
               Line ''  Order Ref: '' [U64 orderRefNum],
               Line ''  Side: '' [Ch buySellIndicator],
               Line ''  Shares: '' [U32 shares],
               Line ''  Stock: '' [Txt stock],
               Line ''  Price: '' [U32 price, Fixed4 price],
               Line ''  Match Number: '' [U64 matchNumber]])"

definition parse_Q :: "byte list \<Rightarrow> nat \<Rightarrow> out_line list" where
  "parse_Q msg len =
     (if len < 40 then []
      else let shares = read_u64 (drop 11 msg);
               stock = read_ascii (drop 19 msg) 8 9;
               crossPrice = read_u32 (drop 27 msg);
               matchNumber = read_u64 (drop 31 msg);
               crossType = msg ! 39
           in [Line ''[Q] Cross Trade'' [],
               Line ''  Shares: '' [U64 shares],
               Line ''  Stock: '' [Txt stock],
               Line ''  Cross Price: '' [U32 crossPrice, Fixed4 crossPrice],
               Line ''  Match Number: '' [U64 matchNumber],
               Line ''  Cross Type: '' [Ch crossType]])"

definition parse_B :: "byte list \<Rightarrow> nat \<Rightarrow> out_line list" where
  "parse_B msg len =
     (if len < 19 then []
      else let matchNumber = read_u64 (drop 11 msg)
           in [Line ''[B] Broken Trade'' [],
               Line ''  Match Number: '' [U64 matchNumber]])"

text \<open>
  The line of the \<open>default\<close> branch. \<open>type\<close> is a \<open>char\<close>: \<open>%c\<close> prints the byte, and
  \<open>%02X\<close> prints it promoted to \<open>int\<close>, sign-extended.
\<close>

definition unknown_message :: "byte \<Rightarrow> out_line" where
  "unknown_message t = Line ''[?] Unknown ITCH message type: '' [Ch t, Hex (scast t)]"

text \<open>
  \<open>parse_itch_message(msg, len)\<close>: nothing at all for \<open>len = 0\<close>; otherwise the decoder
  selected by \<open>msg[0]\<close>, or the \<open>default\<close> line, and then the empty line of the final
  \<open>printf("\n")\<close>. The decoders read \<open>msg\<close> below \<open>len\<close> only, so the caller owes
  \<open>len \<le> length msg\<close>.
\<close>

definition parse_itch_message :: "byte list \<Rightarrow> nat \<Rightarrow> out_line list" where
  "parse_itch_message msg len =
     (if len = 0 then []
      else let t = msg ! 0 in
        (if t = of_char CHR ''S'' then parse_S msg len
         else if t = of_char CHR ''R'' then parse_R msg len
         else if t = of_char CHR ''H'' then parse_H msg len
         else if t = of_char CHR ''A'' then parse_A msg len
         else if t = of_char CHR ''F'' then parse_F msg len
         else if t = of_char CHR ''E'' then parse_E msg len
         else if t = of_char CHR ''C'' then parse_C msg len
         else if t = of_char CHR ''X'' then parse_X msg len
         else if t = of_char CHR ''D'' then parse_D msg len
         else if t = of_char CHR ''U'' then parse_U msg len
         else if t = of_char CHR ''P'' then parse_P msg len
         else if t = of_char CHR ''Q'' then parse_Q msg len
         else if t = of_char CHR ''B'' then parse_B msg len
         else [unknown_message t])
        @ [Line [] []])"

section \<open>The replay server (\<open>itch_replay_server.c\<close>)\<close>

definition BUFFER_SIZE :: nat where
  "BUFFER_SIZE = 64 * 1024"

definition MAX_CLIENTS :: nat where
  "MAX_CLIENTS = 32"

subsection \<open>The byte source\<close>

text \<open>
  What the file hands over, read by read: \<open>Rd bs\<close> is a read that has the bytes \<open>bs\<close>
  to give, \<open>Rd_error\<close> a read that fails (\<open>gzread\<close> returning a negative count). A
  read asks for at most \<open>n\<close> bytes; what it does not take stays for the next read. A
  source with nothing left returns 0 bytes. \<open>fread\<close> and \<open>gzread\<close> on a regular file
  are the source with the whole file as its one chunk.
\<close>

datatype rd = Rd "byte list" | Rd_error

fun source_read :: "nat \<Rightarrow> rd list \<Rightarrow> rd \<times> rd list" where
  "source_read n [] = (Rd [], [])"
| "source_read n (Rd_error # rest) = (Rd_error, rest)"
| "source_read n (Rd c # rest) =
     (if length c \<le> n then (Rd c, rest) else (Rd (take n c), Rd (drop n c) # rest))"

subsection \<open>What the replay does, in order\<close>

datatype event =
    Open_failed
  | Starting real
  | Read_error
  | End_of_file
  | Unknown_message_type byte
  | Incomplete_message
  | Nanosleep u64 u64
  | Broadcast "byte list"
  | Progress u64 u64
  | Replay_complete u64 u64

text \<open>\<open>nsleep\<close>: one \<open>nanosleep\<close> of whole seconds and the remaining nanoseconds.\<close>

definition nsleep :: "u64 \<Rightarrow> event" where
  "nsleep nanoseconds = Nanosleep (nanoseconds div 1000000000) (nanoseconds mod 1000000000)"

text \<open>
  The pacing block of the loop. \<open>scaled delta_ns speed_multiplier\<close> stands for
  \<open>(uint64_t)(delta_ns / speed_multiplier)\<close>. The loop is written over this quotient,
  so that what is proved of the framing holds whatever the quotient is; the program's
  own quotient is \<open>double_quotient\<close> below.
\<close>

definition pace :: "(u64 \<Rightarrow> real \<Rightarrow> u64) \<Rightarrow> real \<Rightarrow> u64 \<Rightarrow> u64 \<Rightarrow> event list" where
  "pace scaled speed_multiplier prev_timestamp current_timestamp =
     (if prev_timestamp > 0 \<and> current_timestamp > prev_timestamp \<and> speed_multiplier > 0
      then let delta_ns = current_timestamp - prev_timestamp;
               sleep_ns = scaled delta_ns speed_multiplier;
               sleep_ns = (if sleep_ns > 1000000000 then 1000000000 else sleep_ns)
           in (if sleep_ns > 1000 then [nsleep sleep_ns] else [])
      else [])"

text \<open>
  \<open>(uint64_t)(delta_ns / speed_multiplier)\<close> with \<open>uint64_t delta_ns\<close> and
  \<open>double speed_multiplier\<close>: \<open>delta_ns\<close> is converted to \<open>double\<close>, the division is that
  of IEEE 754 binary64, and the quotient is converted to \<open>uint64_t\<close>, which drops the
  fraction. A finite \<open>double\<close> is the real number it denotes, and an operation returns
  the exact result rounded to the nearest \<open>double\<close>, to the even significand on a tie.

  \<open>round_half_even\<close> is the nearest integer, the even one on a tie;
  \<open>binary_exponent x\<close> is the \<open>e\<close> with \<open>2^e \<le> x < 2^(e+1)\<close> for \<open>x > 0\<close>;
  \<open>round_to_double\<close> keeps 53 significant bits, and fewer below \<open>2^-1022\<close>, where the
  spacing stays \<open>2^-1074\<close>. A result of \<open>2^1024\<close> or more stands for an infinity.

  The conversion to \<open>uint64_t\<close> of a value of \<open>2^64\<close> or more, or of \<open>-1\<close> or less, is
  undefined in C; \<open>beyond\<close> is what the compiled program gets there. With gcc on
  x86-64 that is 0 for the values of \<open>2^64\<close> or more. In the pacing block the quotient
  is never negative.
\<close>

definition round_half_even :: "real \<Rightarrow> int" where
  "round_half_even y =
     (let f = \<lfloor>y\<rfloor> in
      if y - of_int f < 1 / 2 then f
      else if 1 / 2 < y - of_int f then f + 1
      else if even f then f else f + 1)"

definition binary_exponent :: "real \<Rightarrow> int" where
  "binary_exponent x =
     (if 1 \<le> x then bitlen \<lfloor>x\<rfloor> - 1 else - bitlen (\<lceil>1 / x\<rceil> - 1))"

definition round_to_double :: "real \<Rightarrow> real" where
  "round_to_double x =
     (if x = 0 then 0
      else let e = max (binary_exponent \<bar>x\<bar>) (- 1022);
               ulp = 2 powi (e - 52)
           in of_int (round_half_even (x / ulp)) * ulp)"

definition double_quotient :: "u64 \<Rightarrow> u64 \<Rightarrow> real \<Rightarrow> u64" where
  "double_quotient beyond delta_ns speed_multiplier =
     (let q = round_to_double (round_to_double (of_int (uint delta_ns)) / speed_multiplier)
      in if q \<le> - 1 \<or> 2 ^ 64 \<le> q then beyond
         else if q < 0 then 0
         else word_of_int \<lfloor>q\<rfloor>)"

datatype flow = Break | Next

text \<open>
  The loop's variables. \<open>buf\<close> is \<open>buffer[0 .. buffer_used)\<close>, so \<open>buffer_used\<close> is
  \<open>length buf\<close>; \<open>out\<close> is everything printed, slept and broadcast so far.
\<close>

record replay_state =
  buf :: "byte list"
  src :: "rd list"
  prev_timestamp :: u64
  messages_sent :: u64
  total_bytes :: u64
  out :: "event list"

text \<open>The top of the loop body: read more when the buffer is less than half full.\<close>

definition refill :: "replay_state \<Rightarrow> flow \<times> replay_state" where
  "refill s =
     (if length (buf s) < BUFFER_SIZE div 2 then
        (case source_read (BUFFER_SIZE - length (buf s)) (src s) of
           (Rd_error, src') \<Rightarrow> (Break, s\<lparr>src := src', out := out s @ [Read_error]\<rparr>)
         | (Rd bs, src') \<Rightarrow>
             if bs = [] \<and> buf s = []
             then (Break, s\<lparr>src := src', out := out s @ [End_of_file]\<rparr>)
             else (Next, s\<lparr>buf := buf s @ bs, src := src'\<rparr>))
      else (Next, s))"

text \<open>
  "Wait for complete message": one more read when the message is not whole; a read of
  no bytes (or a failed one) leaves the loop without a word, a read that still leaves
  the message short leaves it with the "Incomplete message" line.
\<close>

definition wait_complete :: "nat \<Rightarrow> replay_state \<Rightarrow> flow \<times> replay_state" where
  "wait_complete msg_len s =
     (if length (buf s) < msg_len then
        (case source_read (BUFFER_SIZE - length (buf s)) (src s) of
           (Rd_error, src') \<Rightarrow> (Break, s\<lparr>src := src'\<rparr>)
         | (Rd bs, src') \<Rightarrow>
             if bs = [] then (Break, s\<lparr>src := src'\<rparr>)
             else if length (buf s @ bs) < msg_len
             then (Break, s\<lparr>buf := buf s @ bs, src := src', out := out s @ [Incomplete_message]\<rparr>)
             else (Next, s\<lparr>buf := buf s @ bs, src := src'\<rparr>))
      else (Next, s))"

text \<open>
  The rest of the body for a whole message: timestamp, pacing, broadcast, counters,
  removal from the buffer. \<open>read_timestamp(buffer + 5)\<close> copies 8 bytes, two more than
  the field; for a 12-byte message at the end of the data the last of them lies past
  \<open>buffer_used\<close>, inside the array. The shift discards both, so the padding written
  here for that byte does not reach the result (\<open>read_timestamp_slack\<close> below).
\<close>

definition emit :: "(u64 \<Rightarrow> real \<Rightarrow> u64) \<Rightarrow> real \<Rightarrow> nat \<Rightarrow> replay_state \<Rightarrow> replay_state" where
  "emit scaled speed_multiplier msg_len s =
     (let current_timestamp =
            (if msg_len \<ge> 11 then read_timestamp (drop 5 (buf s) @ [0, 0]) else 0);
          sent = messages_sent s + 1;
          total = total_bytes s + of_nat msg_len
      in s\<lparr>out := out s @ pace scaled speed_multiplier (prev_timestamp s) current_timestamp
                   @ [Broadcast (take msg_len (buf s))]
                   @ (if sent mod 100000 = 0 then [Progress sent total] else []),
            messages_sent := sent,
            total_bytes := total,
            prev_timestamp := current_timestamp,
            buf := drop msg_len (buf s)\<rparr>)"

text \<open>One pass through the body of \<open>while (server_running)\<close>.\<close>

definition replay_step ::
  "(u64 \<Rightarrow> real \<Rightarrow> u64) \<Rightarrow> real \<Rightarrow> replay_state \<Rightarrow> flow \<times> replay_state" where
  "replay_step scaled speed_multiplier s =
     (case refill s of
        (Break, s1) \<Rightarrow> (Break, s1)
      | (Next, s1) \<Rightarrow>
          (case buf s1 of
             [] \<Rightarrow> (Break, s1)
           | msg_type # rest \<Rightarrow>
               let msg_len = get_message_length msg_type in
               if msg_len = 0
               then (Next, s1\<lparr>buf := rest, out := out s1 @ [Unknown_message_type msg_type]\<rparr>)
               else (case wait_complete msg_len s1 of
                       (Break, s2) \<Rightarrow> (Break, s2)
                     | (Next, s2) \<Rightarrow> (Next, emit scaled speed_multiplier msg_len s2))))"

text \<open>Bytes not yet consumed: in the buffer and still in the source.\<close>

fun rd_size :: "rd \<Rightarrow> nat" where
  "rd_size (Rd bs) = length bs"
| "rd_size Rd_error = 0"

definition pending :: "replay_state \<Rightarrow> nat" where
  "pending s = length (buf s) + sum_list (map rd_size (src s))"

text \<open>
  Every pass that goes round again has taken at least one byte out of the buffer, and
  reading only moves bytes from the source to the buffer: the loop ends.
\<close>

lemma source_read_size:
  "source_read n xs = (r, xs') \<Longrightarrow>
     rd_size r + sum_list (map rd_size xs') = sum_list (map rd_size xs)"
  by (induction n xs rule: source_read.induct) (auto split: if_splits)

lemma refill_pending: "refill s = (Next, s1) \<Longrightarrow> pending s1 = pending s"
  by (auto simp: refill_def pending_def split: if_splits prod.splits rd.splits
           dest: source_read_size)

lemma wait_complete_pending:
  "wait_complete n s1 = (Next, s2) \<Longrightarrow> pending s2 = pending s1 \<and> n \<le> length (buf s2)"
  by (auto simp: wait_complete_def pending_def split: if_splits prod.splits rd.splits
           dest: source_read_size)

lemma pending_emit:
  "pending (emit scaled speed n s) = pending s - min n (length (buf s))"
  by (auto simp: emit_def pending_def Let_def)

lemma replay_step_pending:
  assumes "replay_step scaled speed s = (Next, s')"
  shows "pending s' < pending s"
proof -
  obtain s1 where r: "refill s = (Next, s1)"
    using assms by (auto simp: replay_step_def split: prod.splits flow.splits)
  then have p1: "pending s1 = pending s" by (rule refill_pending)
  obtain t rest where b: "buf s1 = t # rest"
    using assms r by (auto simp: replay_step_def split: list.splits)
  show ?thesis
  proof (cases "get_message_length t = 0")
    case True
    then have "s' = s1\<lparr>buf := rest, out := out s1 @ [Unknown_message_type t]\<rparr>"
      using assms r b by (simp add: replay_step_def)
    then show ?thesis using p1 b by (simp add: pending_def)
  next
    case False
    then obtain s2 where w: "wait_complete (get_message_length t) s1 = (Next, s2)"
      and e: "s' = emit scaled speed (get_message_length t) s2"
      using assms r b by (auto simp: replay_step_def Let_def split: prod.splits flow.splits)
    from wait_complete_pending[OF w]
    have "pending s2 = pending s1" "get_message_length t \<le> length (buf s2)" by simp_all
    then show ?thesis using False p1 unfolding e pending_emit by (simp add: pending_def)
  qed
qed

text \<open>
  \<open>while (server_running) { ... }\<close>. Nothing clears \<open>server_running\<close> while the replay
  runs (\<open>main\<close> does, after \<open>replay_itch_file\<close> has returned), so the loop leaves by
  \<open>break\<close> only.
\<close>

function replay_loop ::
  "(u64 \<Rightarrow> real \<Rightarrow> u64) \<Rightarrow> real \<Rightarrow> replay_state \<Rightarrow> replay_state" where
  "replay_loop scaled speed_multiplier s =
     (if fst (replay_step scaled speed_multiplier s) = Next
      then replay_loop scaled speed_multiplier (snd (replay_step scaled speed_multiplier s))
      else snd (replay_step scaled speed_multiplier s))"
  by pat_completeness auto

termination
proof (relation "measure (\<lambda>(scaled, speed_multiplier, s). pending s)")
  show "wf (measure (\<lambda>(scaled, speed_multiplier, s). pending s))" by simp
next
  fix scaled :: "u64 \<Rightarrow> real \<Rightarrow> u64" and speed_multiplier :: real and s :: replay_state
  assume "fst (replay_step scaled speed_multiplier s) = Next"
  then have "replay_step scaled speed_multiplier s =
      (Next, snd (replay_step scaled speed_multiplier s))"
    by (metis prod.collapse)
  then have "pending (snd (replay_step scaled speed_multiplier s)) < pending s"
    by (rule replay_step_pending)
  then show "((scaled, speed_multiplier, snd (replay_step scaled speed_multiplier s)),
              scaled, speed_multiplier, s)
     \<in> measure (\<lambda>(scaled, speed_multiplier, s). pending s)" by simp
qed

declare replay_loop.simps [simp del]

text \<open>
  \<open>replay_itch_file\<close>: \<open>fp\<close> is what opening the file gives, \<open>None\<close> when it fails
  (return value -1); otherwise the variables are initialised, the loop runs, the summary
  is printed and 0 is returned. \<open>is_gzip\<close> only chooses between \<open>gzread\<close> and \<open>fread\<close>,
  both of them the source above.
\<close>

definition initial_state :: "rd list \<Rightarrow> real \<Rightarrow> replay_state" where
  "initial_state xs speed_multiplier =
     \<lparr>buf = [], src = xs, prev_timestamp = 0, messages_sent = 0, total_bytes = 0,
      out = [Starting speed_multiplier]\<rparr>"

definition replay_itch_file ::
  "(u64 \<Rightarrow> real \<Rightarrow> u64) \<Rightarrow> rd list option \<Rightarrow> real \<Rightarrow> int \<times> event list" where
  "replay_itch_file scaled fp speed_multiplier =
     (case fp of
        None \<Rightarrow> (- 1, [Open_failed])
      | Some xs \<Rightarrow>
          let s = replay_loop scaled speed_multiplier (initial_state xs speed_multiplier)
          in (0, out s @ [Replay_complete (messages_sent s) (total_bytes s)]))"

text \<open>The messages handed to \<open>broadcast_message\<close>, and the lines about unknown bytes.\<close>

fun broadcasts :: "event list \<Rightarrow> byte list list" where
  "broadcasts [] = []"
| "broadcasts (Broadcast m # es) = m # broadcasts es"
| "broadcasts (e # es) = broadcasts es"

fun unknown_diagnostics :: "event list \<Rightarrow> byte list" where
  "unknown_diagnostics [] = []"
| "unknown_diagnostics (Unknown_message_type t # es) = t # unknown_diagnostics es"
| "unknown_diagnostics (e # es) = unknown_diagnostics es"

subsection \<open>\<open>main\<close>: arguments and start-up\<close>

record server_config =
  cfg_filename :: string
  cfg_port :: int
  cfg_speed_multiplier :: real
  cfg_is_gzip :: bool

definition DEFAULT_PORT :: int where
  "DEFAULT_PORT = 9999"

definition DEFAULT_SPEED :: real where
  "DEFAULT_SPEED = 1.0"

text \<open>
  The argument block of \<open>main\<close>. \<open>argv\<close> is the whole vector, program name first;
  \<open>atoi\<close> and \<open>atof\<close> are the C library's and are parameters. \<open>None\<close> is the usage
  error (\<open>argc < 2\<close>, exit code 1).
\<close>

definition parse_args ::
  "(string \<Rightarrow> int) \<Rightarrow> (string \<Rightarrow> real) \<Rightarrow> string list \<Rightarrow> server_config option" where
  "parse_args atoi atof argv =
     (let argc = length argv in
      if argc < 2 then None
      else let name = argv ! 1; len = length name in
        Some \<lparr>cfg_filename = name,
              cfg_port = (if argc \<ge> 3 then atoi (argv ! 2) else DEFAULT_PORT),
              cfg_speed_multiplier = (if argc \<ge> 4 then atof (argv ! 3) else DEFAULT_SPEED),
              cfg_is_gzip = (len > 3 \<and> drop (len - 3) name = ''.gz'')\<rparr>)"

text \<open>
  What the system calls of the start-up return: success or failure, and the file. The
  accept thread runs \<open>while (server_running) { accept(...); ... }\<close> and is blocked in
  \<open>accept\<close> when the replay ends; \<open>accept_returns\<close> says whether that call ever returns
  (a connection arrives, or the call fails) once \<open>main\<close> has cleared \<open>server_running\<close>.
\<close>

record sys_env =
  socket_ok :: bool
  setsockopt_ok :: bool
  bind_ok :: bool
  listen_ok :: bool
  fopen_result :: "rd list option"
  accept_returns :: bool

text \<open>
  How \<open>main\<close> ends: with an exit code, or never, blocked in
  \<open>pthread_join(accept_thread, NULL)\<close>.
\<close>

datatype outcome = Exit int | Joining

text \<open>
  \<open>main\<close>: how it ends and what the replay did, when it got that far. No statement
  between the argument block and the call of \<open>replay_itch_file\<close> looks at the speed
  multiplier, apart from printing it. The value \<open>replay_itch_file\<close> returns is not looked
  at. After the replay \<open>main\<close> clears \<open>server_running\<close> and joins the accept thread, which
  leaves its loop only when its \<open>accept\<close> has returned; then \<open>main\<close> closes the sockets
  and returns 0.
\<close>

definition server_main ::
  "(string \<Rightarrow> int) \<Rightarrow> (string \<Rightarrow> real) \<Rightarrow> (u64 \<Rightarrow> real \<Rightarrow> u64) \<Rightarrow> sys_env \<Rightarrow> string list
     \<Rightarrow> outcome \<times> event list option" where
  "server_main atoi atof scaled env argv =
     (case parse_args atoi atof argv of
        None \<Rightarrow> (Exit 1, None)
      | Some config \<Rightarrow>
          if \<not> socket_ok env then (Exit 1, None)
          else if \<not> setsockopt_ok env then (Exit 1, None)
          else if \<not> bind_ok env then (Exit 1, None)
          else if \<not> listen_ok env then (Exit 1, None)
          else let replayed = snd (replay_itch_file scaled (fopen_result env)
                                     (cfg_speed_multiplier config))
               in (if accept_returns env then Exit 0 else Joining, Some replayed))"

subsection \<open>The broadcaster (\<open>broadcast_message\<close>)\<close>

record client =
  socket_fd :: int
  address :: "u32 \<times> u16"
  active :: bool

text \<open>
  What one \<open>send\<close> returns: the count of bytes taken, or -1 with \<open>errno\<close> set. The
  network is a parameter: the result of a \<open>send\<close> on a descriptor with given bytes.
\<close>

datatype send_result = Sent nat | Send_failed int

definition EPIPE :: int where
  "EPIPE = 32"

definition ECONNRESET :: int where
  "ECONNRESET = 104"

text \<open>
  What the broadcaster does, in order. The slot index on \<open>Send_to\<close> and \<open>Close\<close> tells
  which slot's descriptor the call was made on.
\<close>

datatype net_event =
    Send_to nat int "byte list"
  | Client_disconnected nat
  | Close nat int
  | Perror_send

text \<open>The body of the \<open>for\<close> loop for slot \<open>i\<close>.\<close>

definition broadcast_slot ::
  "(int \<Rightarrow> byte list \<Rightarrow> send_result) \<Rightarrow> byte list \<Rightarrow> nat
     \<Rightarrow> client list \<times> net_event list \<Rightarrow> client list \<times> net_event list" where
  "broadcast_slot send msg i st =
     (let clients = fst st; done = snd st; c = clients ! i in
      if \<not> active c then (clients, done)
      else (case send (socket_fd c) msg of
              Sent n \<Rightarrow> (clients, done @ [Send_to i (socket_fd c) msg])
            | Send_failed errno \<Rightarrow>
                if errno = EPIPE \<or> errno = ECONNRESET
                then (clients[i := c\<lparr>active := False\<rparr>],
                      done @ [Send_to i (socket_fd c) msg, Client_disconnected i,
                              Close i (socket_fd c)])
                else (clients, done @ [Send_to i (socket_fd c) msg, Perror_send])))"

text \<open>
  \<open>broadcast_message(msg, len)\<close> under the mutex: the slots in index order. It returns
  the new slots, what was done, and \<open>len\<close>. \<open>clients\<close> is the array of \<open>MAX_CLIENTS\<close>
  slots.
\<close>

definition broadcast_message ::
  "(int \<Rightarrow> byte list \<Rightarrow> send_result) \<Rightarrow> client list \<Rightarrow> byte list \<Rightarrow> nat
     \<Rightarrow> client list \<times> net_event list \<times> nat" where
  "broadcast_message send clients msg len =
     (let st = fold (broadcast_slot send (take len msg)) [0..<MAX_CLIENTS] (clients, [])
      in (fst st, snd st, len))"

section \<open>The client's framing loop (\<open>itch_client.c\<close>)\<close>

record stats =
  total_messages :: u64
  stats_total_bytes :: u64
  messages_by_type :: "u64 list"

datatype client_event =
    Recv_error
  | Server_disconnected
  | Unknown_type byte
  | Framed "byte list"
  | Parsed "out_line list"
  | Received u64 u64
  | Buffer_nearly_full

text \<open>
  The client's variables: \<open>cbuf\<close> is \<open>buffer[0 .. buffer_used)\<close>, \<open>net\<close> what \<open>recv\<close> will
  return call by call, \<open>seen\<close> what has been printed and counted so far. \<open>Framed m\<close>
  marks the point where the statistics are updated for the message \<open>m\<close>.
\<close>

record client_state =
  cbuf :: "byte list"
  net :: "rd list"
  cstats :: stats
  seen :: "client_event list"

definition count_message :: "byte \<Rightarrow> nat \<Rightarrow> stats \<Rightarrow> stats" where
  "count_message msg_type msg_len st =
     st\<lparr>total_messages := total_messages st + 1,
        stats_total_bytes := stats_total_bytes st + of_nat msg_len,
        messages_by_type := (messages_by_type st)
          [unat msg_type := messages_by_type st ! unat msg_type + 1]\<rparr>"

text \<open>\<open>while (buffer_used > 0) { ... }\<close>: the messages that are whole in the buffer.\<close>

function parse_buffer :: "bool \<Rightarrow> client_state \<Rightarrow> client_state" where
  "parse_buffer verbose s =
     (case cbuf s of
        [] \<Rightarrow> s
      | msg_type # rest \<Rightarrow>
          let msg_len = get_itch_message_length msg_type in
          if msg_len = 0
          then parse_buffer verbose (s\<lparr>cbuf := rest, seen := seen s @ [Unknown_type msg_type]\<rparr>)
          else if length (cbuf s) < msg_len then s
          else let st = count_message msg_type msg_len (cstats s) in
            parse_buffer verbose
              (s\<lparr>cbuf := drop msg_len (cbuf s),
                 cstats := st,
                 seen := seen s
                   @ (if verbose then [Parsed (parse_itch_message (cbuf s) msg_len)] else [])
                   @ [Framed (take msg_len (cbuf s))]
                   @ (if total_messages st mod 100000 = 0
                      then [Received (total_messages st) (stats_total_bytes st)] else [])\<rparr>))"
  by pat_completeness auto

termination
  by (relation "measure (\<lambda>(verbose, s). length (cbuf s))") auto

declare parse_buffer.simps [simp del]

text \<open>
  \<open>while (1) { recv ...; parse ...; warn ... }\<close>: a failed \<open>recv\<close> and a \<open>recv\<close> of no
  bytes leave the loop. The warning compares with \<open>BUFFER_SIZE * 0.9\<close>, that is 58982.4.
\<close>

function client_loop :: "bool \<Rightarrow> client_state \<Rightarrow> client_state" where
  "client_loop verbose s =
     (case source_read (BUFFER_SIZE - length (cbuf s)) (net s) of
        (Rd_error, rest) \<Rightarrow> s\<lparr>net := rest, seen := seen s @ [Recv_error]\<rparr>
      | (Rd bs, rest) \<Rightarrow>
          if bs = [] then s\<lparr>net := rest, seen := seen s @ [Server_disconnected]\<rparr>
          else let s1 = parse_buffer verbose (s\<lparr>cbuf := cbuf s @ bs, net := rest\<rparr>) in
            client_loop verbose
              (if length (cbuf s1) > 58982 then s1\<lparr>seen := seen s1 @ [Buffer_nearly_full]\<rparr>
               else s1))"
  by pat_completeness auto

lemma net_parse_buffer: "net (parse_buffer verbose s) = net s"
proof (induction verbose s rule: parse_buffer.induct)
  case (1 verbose s)
  show ?case
  proof (cases "cbuf s")
    case Nil
    then show ?thesis by (subst parse_buffer.simps) simp
  next
    case (Cons t rest)
    show ?thesis
    proof (cases "get_itch_message_length t = 0")
      case True
      then show ?thesis using Cons "1.IH"(1)[OF Cons refl True]
        by (subst parse_buffer.simps) simp
    next
      case False
      show ?thesis
      proof (cases "length (cbuf s) < get_itch_message_length t")
        case True
        then show ?thesis using Cons False by (subst parse_buffer.simps) simp
      next
        case long: False
        show ?thesis
          using Cons False long "1.IH"(2)[OF Cons refl False long refl]
          by (subst parse_buffer.simps) (simp add: Let_def)
      qed
    qed
  qed
qed

termination client_loop
proof (relation "measure (\<lambda>(verbose, s). sum_list (map rd_size (net s)))")
  show "wf (measure (\<lambda>(verbose, s). sum_list (map rd_size (net s))))" by simp
next
  fix verbose :: bool and s :: client_state and r rest bs s1
  assume p: "(r, rest) = source_read (BUFFER_SIZE - length (cbuf s)) (net s)"
    and r: "r = Rd bs" and ne: "bs \<noteq> []"
    and s1: "s1 = parse_buffer verbose (s\<lparr>cbuf := cbuf s @ bs, net := rest\<rparr>)"
  have "length bs + sum_list (map rd_size rest) = sum_list (map rd_size (net s))"
    using source_read_size[of "BUFFER_SIZE - length (cbuf s)" "net s" "Rd bs" rest] p r
    by simp
  moreover have "0 < length bs" using ne by simp
  ultimately have "sum_list (map rd_size rest) < sum_list (map rd_size (net s))"
    by linarith
  then show "((verbose,
               if 58982 < length (cbuf s1) then s1\<lparr>seen := seen s1 @ [Buffer_nearly_full]\<rparr>
               else s1), verbose, s)
     \<in> measure (\<lambda>(verbose, s). sum_list (map rd_size (net s)))"
    unfolding s1 by (simp add: net_parse_buffer)
qed

declare client_loop.simps [simp del]

section \<open>Framing: the reference and the invariants of the loops\<close>

text \<open>
  The framing as the specification words it, on the whole byte stream: look the type
  byte up in the table; length 0 is an unknown-type event that takes one byte; a
  message longer than what is left ends the sequence; otherwise the message is exactly
  that many bytes.
\<close>

datatype item = Frame "byte list" | Unknown byte

function spec_framing :: "byte list \<Rightarrow> item list" where
  "spec_framing [] = []"
| "spec_framing (t # rest) =
     (if canonical_length t = 0 then Unknown t # spec_framing rest
      else if length (t # rest) < canonical_length t then []
      else Frame (take (canonical_length t) (t # rest))
             # spec_framing (drop (canonical_length t) (t # rest)))"
  by pat_completeness auto

termination
  by (relation "measure length") auto

declare spec_framing.simps(2) [simp del]

text \<open>What a run of the server shows of the framing: messages and unknown bytes.\<close>

fun item_of :: "event \<Rightarrow> item list" where
  "item_of (Broadcast m) = [Frame m]"
| "item_of (Unknown_message_type t) = [Unknown t]"
| "item_of e = []"

definition items_of :: "event list \<Rightarrow> item list" where
  "items_of es = concat (map item_of es)"

text \<open>The bytes a state has not framed yet, and sources that never fail.\<close>

fun rd_bytes :: "rd \<Rightarrow> byte list" where
  "rd_bytes (Rd bs) = bs"
| "rd_bytes Rd_error = []"

definition stream :: "replay_state \<Rightarrow> byte list" where
  "stream s = buf s @ concat (map rd_bytes (src s))"

definition clean :: "rd list \<Rightarrow> bool" where
  "clean xs = (Rd_error \<notin> set xs)"

text \<open>
  \<open>good\<close>: every chunk but the last holds a whole message of any type (50 bytes, the
  longest). The loop keeps \<open>replay_inv\<close> at its top and \<open>refilled_inv\<close> after a refill:
  the source is \<open>good\<close>, or it is \<open>good\<close> after its next chunk and that chunk cannot
  leave a message cut (the buffer is far from empty, or nothing has been read yet and
  the chunk is not empty).
\<close>

definition good :: "rd list \<Rightarrow> bool" where
  "good xs = (\<forall>c \<in> set (butlast xs). 50 \<le> rd_size c)"

definition replay_inv :: "replay_state \<Rightarrow> bool" where
  "replay_inv s = (clean (src s) \<and>
     (good (src s) \<or>
      (src s \<noteq> [] \<and> good (tl (src s)) \<and>
        (32718 \<le> length (buf s) \<or> (buf s = [] \<and> rd_size (hd (src s)) \<noteq> 0)))))"

definition refilled_inv :: "replay_state \<Rightarrow> bool" where
  "refilled_inv s = (clean (src s) \<and>
     (good (src s) \<or> (src s \<noteq> [] \<and> good (tl (src s)) \<and> 32768 \<le> length (buf s))))"

text \<open>The same for the client.\<close>

fun client_item_of :: "client_event \<Rightarrow> item list" where
  "client_item_of (Framed m) = [Frame m]"
| "client_item_of (Unknown_type t) = [Unknown t]"
| "client_item_of e = []"

definition client_items_of :: "client_event list \<Rightarrow> item list" where
  "client_items_of es = concat (map client_item_of es)"

definition client_stream :: "client_state \<Rightarrow> byte list" where
  "client_stream s = cbuf s @ concat (map rd_bytes (net s))"

definition client_inv :: "client_state \<Rightarrow> bool" where
  "client_inv s = (clean (net s) \<and> (\<forall>c \<in> set (net s). rd_size c \<noteq> 0) \<and>
     length (cbuf s) < 50 \<and> spec_framing (cbuf s) = [])"

section \<open>Notions the claims are stated with\<close>

subsection \<open>Framing\<close>

text \<open>
  A well-formed message: its type byte is in the table and it is as long as the table
  says.
\<close>

definition well_formed_message :: "byte list \<Rightarrow> bool" where
  "well_formed_message msg =
     (msg \<noteq> [] \<and> canonical_length (hd msg) \<noteq> 0 \<and> length msg = canonical_length (hd msg))"

fun frames_of :: "item list \<Rightarrow> byte list list" where
  "frames_of [] = []"
| "frames_of (Frame m # is) = m # frames_of is"
| "frames_of (Unknown t # is) = frames_of is"

fun unknowns_of :: "item list \<Rightarrow> byte list" where
  "unknowns_of [] = []"
| "unknowns_of (Frame m # is) = unknowns_of is"
| "unknowns_of (Unknown t # is) = t # unknowns_of is"

text \<open>The client's variables when its loop starts (\<open>init_stats\<close>, \<open>buffer_used = 0\<close>).\<close>

definition client_start :: "rd list \<Rightarrow> client_state" where
  "client_start xs =
     \<lparr>cbuf = [], net = xs,
      cstats = \<lparr>total_messages = 0, stats_total_bytes = 0, messages_by_type = replicate 256 0\<rparr>,
      seen = []\<rparr>"

text \<open>
  Inputs for concrete runs: the quotient at speed 1.0 (a \<open>delta_ns\<close> below \<open>2^53\<close>
  divided by 1.0 and converted back is itself), and a System Event message with
  timestamp 34200000000000.
\<close>

definition unscaled :: "u64 \<Rightarrow> real \<Rightarrow> u64" where
  "unscaled delta_ns speed_multiplier = delta_ns"

definition system_event :: "byte list" where
  "system_event = [0x53, 0x00, 0x01, 0x00, 0x00, 0x1F, 0x1A, 0xCE, 0xD9, 0xF0, 0x00, 0x4F]"

text \<open>The messages the client framed, and the bytes it reported as unknown.\<close>

fun framed :: "client_event list \<Rightarrow> byte list list" where
  "framed [] = []"
| "framed (Framed m # es) = m # framed es"
| "framed (e # es) = framed es"

fun client_unknowns :: "client_event list \<Rightarrow> byte list" where
  "client_unknowns [] = []"
| "client_unknowns (Unknown_type t # es) = t # client_unknowns es"
| "client_unknowns (e # es) = client_unknowns es"

text \<open>
  A partition of a stream of messages into the chunks the source has ready at its
  successive reads, such that no message is spread over more than two reads and no
  read before the end of the stream yields 0 bytes. \<open>within_two_reads a chunks ms\<close>
  walks the messages \<open>ms\<close> along the chunks: \<open>a\<close> bytes of the chunk read last are not
  framed yet and \<open>chunks\<close> are still to be read. With no byte left the next chunk must
  not be empty; a message that fits in the \<open>a\<close> bytes takes them; any other message
  takes them all and must end in the next chunk. After the last message nothing is
  asked of the chunks.
\<close>

fun within_two_reads :: "nat \<Rightarrow> byte list list \<Rightarrow> byte list list \<Rightarrow> bool" where
  "within_two_reads a cs [] = True"
| "within_two_reads a [] (m # ms) = (length m \<le> a \<and> within_two_reads (a - length m) [] ms)"
| "within_two_reads a (c # cs) (m # ms) =
     (if a = 0 then c \<noteq> [] \<and> within_two_reads (length c) cs (m # ms)
      else if length m \<le> a then within_two_reads (a - length m) (c # cs) ms
      else length m \<le> a + length c \<and> within_two_reads (a + length c - length m) cs ms)"


subsection \<open>Pacing\<close>

text \<open>The nanoseconds a list of events sleeps in all, and its sleeps.\<close>

fun slept_ns :: "event \<Rightarrow> nat" where
  "slept_ns (Nanosleep sec nsec) = unat sec * 1000000000 + unat nsec"
| "slept_ns e = 0"

fun is_sleep :: "event \<Rightarrow> bool" where
  "is_sleep (Nanosleep sec nsec) = True"
| "is_sleep e = False"

definition sleeps :: "event list \<Rightarrow> event list" where
  "sleeps es = filter is_sleep es"

text \<open>The spacing of the \<open>double\<close> values around \<open>x\<close>.\<close>

definition ulp :: "real \<Rightarrow> real" where
  "ulp x = 2 powi (max (binary_exponent \<bar>x\<bar>) (- 1022) - 52)"

subsection \<open>Dispatching\<close>

text \<open>The case labels of the dispatcher, and the table's other types.\<close>

definition decoded_types :: "byte list" where
  "decoded_types = map of_char ''SRHAFECXDUPQB''"

definition undecoded_types :: "byte list" where
  "undecoded_types = map of_char ''YLVWKIN''"

text \<open>
  The decoders by case label: the least \<open>len\<close> the decoder accepts (its
  \<open>if (len < n) return;\<close>) and the title it prints first.
\<close>

definition decoders :: "(char \<times> nat \<times> string \<times> (byte list \<Rightarrow> nat \<Rightarrow> out_line list)) list" where
  "decoders =
     [(CHR ''S'', 12, ''[S] System Event'', parse_S),
      (CHR ''R'', 39, ''[R] Stock Directory'', parse_R),
      (CHR ''H'', 25, ''[H] Stock Trading Action'', parse_H),
      (CHR ''A'', 36, ''[A] Add Order (No MPID)'', parse_A),
      (CHR ''F'', 40, ''[F] Add Order (MPID)'', parse_F),
      (CHR ''E'', 31, ''[E] Order Executed'', parse_E),
      (CHR ''C'', 36, ''[C] Order Executed With Price'', parse_C),
      (CHR ''X'', 23, ''[X] Order Cancel'', parse_X),
      (CHR ''D'', 19, ''[D] Order Delete'', parse_D),
      (CHR ''U'', 35, ''[U] Order Replace'', parse_U),
      (CHR ''P'', 44, ''[P] Trade (Non-Cross)'', parse_P),
      (CHR ''Q'', 40, ''[Q] Cross Trade'', parse_Q),
      (CHR ''B'', 19, ''[B] Broken Trade'', parse_B)]"

subsection \<open>Broadcasting\<close>

text \<open>The write errors the broadcaster treats as a disconnect.\<close>

fun disconnected :: "send_result \<Rightarrow> bool" where
  "disconnected (Sent n) = False"
| "disconnected (Send_failed errno) = (errno = EPIPE \<or> errno = ECONNRESET)"

text \<open>The sends made, and the descriptors closed on slot \<open>i\<close>, in order.\<close>

fun sends :: "net_event list \<Rightarrow> (nat \<times> int \<times> byte list) list" where
  "sends [] = []"
| "sends (Send_to j fd bytes # es) = (j, fd, bytes) # sends es"
| "sends (e # es) = sends es"

fun closes :: "nat \<Rightarrow> net_event list \<Rightarrow> int list" where
  "closes i [] = []"
| "closes i (Close j fd # es) = (if i = j then fd # closes i es else closes i es)"
| "closes i (e # es) = closes i es"

text \<open>
  The other write errors, the \<open>perror("send")\<close> reports made and the slots reported as
  disconnected, in order.
\<close>

fun other_failure :: "send_result \<Rightarrow> bool" where
  "other_failure (Sent n) = False"
| "other_failure (Send_failed errno) = (errno \<noteq> EPIPE \<and> errno \<noteq> ECONNRESET)"

fun perrors :: "net_event list \<Rightarrow> nat" where
  "perrors [] = 0"
| "perrors (Perror_send # es) = Suc (perrors es)"
| "perrors (e # es) = perrors es"

fun disconnect_notices :: "net_event list \<Rightarrow> nat list" where
  "disconnect_notices [] = []"
| "disconnect_notices (Client_disconnected j # es) = j # disconnect_notices es"
| "disconnect_notices (e # es) = disconnect_notices es"

text \<open>A slot after the broadcast, and what the broadcast does on it.\<close>

definition slot_after :: "(int \<Rightarrow> byte list \<Rightarrow> send_result) \<Rightarrow> byte list \<Rightarrow> client \<Rightarrow> client" where
  "slot_after send msg c =
     (if active c \<and> disconnected (send (socket_fd c) msg) then c\<lparr>active := False\<rparr> else c)"

definition slot_events ::
  "(int \<Rightarrow> byte list \<Rightarrow> send_result) \<Rightarrow> byte list \<Rightarrow> nat \<Rightarrow> client \<Rightarrow> net_event list" where
  "slot_events send msg i c =
     (if \<not> active c then []
      else if disconnected (send (socket_fd c) msg)
      then [Send_to i (socket_fd c) msg, Client_disconnected i, Close i (socket_fd c)]
      else (case send (socket_fd c) msg of
              Sent n \<Rightarrow> [Send_to i (socket_fd c) msg]
            | Send_failed errno \<Rightarrow> [Send_to i (socket_fd c) msg, Perror_send]))"

text \<open>Inputs for a concrete run: every send fails with the given \<open>errno\<close>.\<close>

definition send_fails :: "int \<Rightarrow> int \<Rightarrow> byte list \<Rightarrow> send_result" where
  "send_fails errno fd bytes = Send_failed errno"

definition one_subscriber :: "client list" where
  "one_subscriber =
     \<lparr>socket_fd = 7, address = (0, 0), active = True\<rparr>
       # replicate 31 \<lparr>socket_fd = 0, address = (0, 0), active = False\<rparr>"

subsection \<open>Start-up\<close>

text \<open>
  Inputs for a concrete run: a conversion function of the C library on a run where the
  argument reads as \<open>v\<close>; a second System Event message, stamped 34200050000000, that
  is 50 ms after the first; and start-up calls that all succeed on a file holding the
  two messages, with no connection arriving after the replay.
\<close>

definition reads_as :: "'a \<Rightarrow> string \<Rightarrow> 'a" where
  "reads_as v s = v"

definition system_event_later :: "byte list" where
  "system_event_later = [0x53, 0x00, 0x01, 0x00, 0x00, 0x1F, 0x1A, 0xD1, 0xD4, 0xE0, 0x80, 0x43]"

definition sample_env :: sys_env where
  "sample_env =
     \<lparr>socket_ok = True, setsockopt_ok = True, bind_ok = True, listen_ok = True,
      fopen_result = Some [Rd (system_event @ system_event_later)], accept_returns = False\<rparr>"

chapter \<open>Their properties\<close>

section \<open>Properties of the codec\<close>

subsection \<open>Bits of the readers\<close>

lemma bit_byte_high: "8 \<le> n \<Longrightarrow> \<not> bit (x::byte) n"
  using bit_imp_le_length[of x n] by auto

lemma div8_add8: "(m + 8) div 8 = Suc (m div (8::nat))"
  by presburger

lemma mod8_add8: "(m + 8) mod 8 = m mod (8::nat)"
  by presburger

lemma bit_load_le:
  "bit (load_le xs) n \<longleftrightarrow> n < 64 \<and> n div 8 < length xs \<and> bit (xs ! (n div 8)) (n mod 8)"
proof (induction xs arbitrary: n)
  case Nil
  show ?case by simp
next
  case (Cons x xs)
  show ?case
  proof (cases "n < 8")
    case True
    then show ?thesis by (simp add: bit_simps)
  next
    case False
    define m where "m = n - 8"
    have m: "n = m + 8" using False by (simp add: m_def)
    have "bit (load_le (x # xs)) n \<longleftrightarrow> n < 64 \<and> bit (load_le xs) m"
      using m by (auto simp add: bit_simps bit_byte_high)
    then show ?thesis using Cons.IH[of m] by (auto simp add: m div8_add8 mod8_add8)
  qed
qed

lemma length_store_le: "length (store_le k w) = k"
  by (induction k arbitrary: w) auto

lemma nth_store_le: "i < k \<Longrightarrow> store_le k w ! i = ucast (drop_bit (8 * i) w)"
proof (induction k arbitrary: w i)
  case 0
  then show ?case by simp
next
  case (Suc k)
  show ?case
  proof (cases i)
    case 0
    then show ?thesis by simp
  next
    case (Suc j)
    then show ?thesis
      using Suc.IH[of j "drop_bit 8 w"] Suc.prems by (simp add: add.commute)
  qed
qed

text \<open>\<open>bswap64\<close> moves bit \<open>n\<close> of byte \<open>k\<close> to bit \<open>n\<close> of byte \<open>7 - k\<close>.\<close>

lemma bit_bswap64:
  "bit (bswap64 x) n \<longleftrightarrow> n < 64 \<and> bit x (8 * (7 - n div 8) + n mod 8)"
proof (cases "n < 64")
  case False
  then show ?thesis unfolding bswap64_def bit_load_le by simp
next
  case True
  then have d: "n div 8 < 8" by simp
  have m: "n mod 8 < 8" by simp
  have s: "store_le 8 x ! (7 - n div 8) = ucast (drop_bit (8 * (7 - n div 8)) x)"
    by (rule nth_store_le) simp
  have r: "rev (store_le 8 x) ! (n div 8) = store_le 8 x ! (7 - n div 8)"
    using d by (simp only: rev_nth length_store_le) simp
  have "bit (bswap64 x) n \<longleftrightarrow> bit (store_le 8 x ! (7 - n div 8)) (n mod 8)"
    unfolding bswap64_def bit_load_le using True d r
    by (simp only: length_rev length_store_le) simp
  then show ?thesis
    using True m unfolding s by (simp only: bit_ucast_iff bit_drop_bit_eq) simp
qed

lemma bit_read_be_from:
  "bit (read_be_from v xs) n \<longleftrightarrow>
     n < 64 \<and> (if n div 8 < length xs then bit (xs ! (length xs - 1 - n div 8)) (n mod 8)
                else bit v (n - 8 * length xs))"
proof (induction v xs arbitrary: n rule: read_be_from.induct)
  case (1 v)
  then show ?case by (auto dest: bit_imp_le_length)
next
  case (2 v x xs)
  let ?v = "push_bit 8 v OR ucast x"
  have ih: "bit (read_be_from ?v xs) n \<longleftrightarrow>
     n < 64 \<and> (if n div 8 < length xs then bit (xs ! (length xs - 1 - n div 8)) (n mod 8)
                else bit ?v (n - 8 * length xs))"
    using 2 by simp
  show ?case
  proof (cases "n div 8 < length xs")
    case True
    then show ?thesis using ih by (simp add: nth_Cons')
  next
    case False
    show ?thesis
    proof (cases "n div 8 = length xs")
      case True
      then have "n - 8 * length xs = n mod 8" by (metis minus_mult_div_eq_mod)
      then show ?thesis using ih True by (auto simp add: bit_simps bit_byte_high)
    next
      case ne: False
      then have gt: "length xs < n div 8" using False by simp
      then have le: "8 * length xs + 8 \<le> n" by simp
      define m where "m = n - (8 * length xs + 8)"
      have m: "n - 8 * length xs = m + 8" "n - 8 * length (x # xs) = m"
        using le by (simp_all add: m_def)
      have "\<not> n div 8 < length (x # xs)" using gt by simp
      moreover have "m < 56 \<or> \<not> n < 64" using le by (auto simp add: m_def)
      ultimately show ?thesis
        using ih gt unfolding m by (auto simp add: bit_simps bit_byte_high)
    qed
  qed
qed

text \<open>The timestamp reader is the big-endian loop over the first six bytes.\<close>

lemma parse_timestamp_read_be_from:
  assumes len: "8 \<le> length bs"
  shows "parse_timestamp bs = read_be_from 0 (take 6 bs)"
proof (rule bit_word_eqI)
  fix n assume n: "n < LENGTH(64)"
  show "bit (parse_timestamp bs) n = bit (read_be_from 0 (take 6 bs)) n"
  proof (cases "n < 48")
    case True
    have a: "(16 + n) div 8 = n div 8 + 2" "(16 + n) mod 8 = n mod 8" by presburger+
    have b: "n div 8 < 6" using True by simp
    have c: "7 - (n div 8 + 2) = 5 - n div 8" by simp
    have d: "(8 * (5 - n div 8) + n mod 8) div 8 = 5 - n div 8"
      "(8 * (5 - n div 8) + n mod 8) mod 8 = n mod 8" by simp_all
    have "bit (parse_timestamp bs) n \<longleftrightarrow> bit (bswap64 (load_le (take 8 bs))) (16 + n)"
      by (simp add: parse_timestamp_def bit_drop_bit_eq)
    also have "\<dots> \<longleftrightarrow> bit (load_le (take 8 bs)) (8 * (5 - n div 8) + n mod 8)"
      unfolding bit_bswap64 a c using True by simp
    also have "\<dots> \<longleftrightarrow> bit (take 8 bs ! (5 - n div 8)) (n mod 8)"
    proof -
      have "n mod 8 < 8" by simp
      moreover have "8 * (5 - n div 8) \<le> 40" by simp
      ultimately have "8 * (5 - n div 8) + n mod 8 < 64" by linarith
      then show ?thesis unfolding bit_load_le d using len b by simp
    qed
    finally have "bit (parse_timestamp bs) n \<longleftrightarrow> bit (take 8 bs ! (5 - n div 8)) (n mod 8)" .
    moreover have "bit (read_be_from 0 (take 6 bs)) n \<longleftrightarrow>
        bit (take 6 bs ! (5 - n div 8)) (n mod 8)"
      unfolding bit_read_be_from using True len b by simp
    ultimately show ?thesis by simp
  next
    case False
    have "\<not> bit (parse_timestamp bs) n"
      unfolding parse_timestamp_def bit_drop_bit_eq bit_bswap64 using False by simp
    moreover have "\<not> n div 8 < 6" using False by presburger
    then have "\<not> bit (read_be_from 0 (take 6 bs)) n"
      unfolding bit_read_be_from using len by simp
    ultimately show ?thesis by simp
  qed
qed

text \<open>
  The two bytes the reader copies beyond the six of the field do not reach its result.
\<close>

lemma read_timestamp_slack:
  assumes "6 \<le> length b" and "2 \<le> length x" and "2 \<le> length y"
  shows "read_timestamp (b @ x) = read_timestamp (b @ y)"
proof -
  have "parse_timestamp (b @ x) = read_be_from 0 (take 6 (b @ x))"
    using assms by (intro parse_timestamp_read_be_from) simp
  moreover have "parse_timestamp (b @ y) = read_be_from 0 (take 6 (b @ y))"
    using assms by (intro parse_timestamp_read_be_from) simp
  ultimately show ?thesis
    using assms(1) by (simp add: read_timestamp_def parse_timestamp_def)
qed

lemma read_timestamp_value:
  "8 \<le> length b \<Longrightarrow> read_timestamp b = read_be_from 0 (take 6 b)"
  using parse_timestamp_read_be_from[of b] by (simp add: read_timestamp_def parse_timestamp_def)

subsection \<open>Values of the readers\<close>

lemma shift_or_byte:
  fixes v :: u64 and x :: byte
  shows "push_bit 8 v OR ucast x = v * 256 + ucast x"
proof -
  have "push_bit 8 v AND (ucast x :: u64) = 0"
    by (rule bit_word_eqI) (auto simp add: bit_simps dest: bit_imp_le_length)
  then have "push_bit 8 v + (ucast x :: u64) = push_bit 8 v OR ucast x"
    by (rule disjunctive_add_eq_or)
  then show ?thesis by (simp add: push_bit_eq_mult)
qed

lemma unat_shift_or_byte:
  fixes v :: u64 and x :: byte
  assumes "unat v < 2 ^ (8 * k)" and "k < 8"
  shows "unat (push_bit 8 v OR ucast x) = 256 * unat v + unat x"
    and "unat (push_bit 8 v OR ucast x) < 2 ^ (8 * Suc k)"
proof -
  have x: "unat x < 256" using unsigned_less[of x, where ?'a = nat] by simp
  have "(2::nat) ^ (8 * k) \<le> 2 ^ 56" using assms(2) by (intro power_increasing) simp_all
  then have v: "unat v < 2 ^ 56" using assms(1) by linarith
  have small: "256 * unat v + unat x < 2 ^ 64" using v x by simp
  have u: "unat (ucast x :: u64) = unat x"
    using x by (simp add: unsigned_ucast_eq take_bit_nat_eq_self)
  have "unat (push_bit 8 v OR ucast x) = (unat v * 256 + unat x) mod 2 ^ 64"
    unfolding shift_or_byte by (simp add: unat_word_ariths u mod_simps)
  then show eq: "unat (push_bit 8 v OR ucast x) = 256 * unat v + unat x"
    using small by (simp add: mult.commute)
  have "256 * unat v + unat x < 256 * (unat v + 1)" using x by simp
  also have "\<dots> \<le> 256 * 2 ^ (8 * k)" using assms(1) by (intro mult_le_mono2) simp
  also have "\<dots> = 2 ^ (8 * Suc k)" by (simp add: power_add)
  finally show "unat (push_bit 8 v OR ucast x) < 2 ^ (8 * Suc k)" unfolding eq .
qed

lemma unat_read_be_from:
  "unat v < 2 ^ (8 * k) \<Longrightarrow> k + length xs \<le> 8 \<Longrightarrow>
     unat (read_be_from v xs) = foldl (\<lambda>v x. 256 * v + unat x) (unat v) xs"
proof (induction xs arbitrary: v k)
  case Nil
  then show ?case by simp
next
  case (Cons x xs)
  have k: "k < 8" using Cons.prems(2) by simp
  note s = unat_shift_or_byte[OF Cons.prems(1) k, of x]
  have "unat (read_be_from (push_bit 8 v OR ucast x) xs) =
        foldl (\<lambda>v x. 256 * v + unat x) (unat (push_bit 8 v OR ucast x)) xs"
    using Cons.prems(2) by (intro Cons.IH[OF s(2)]) simp
  then show ?case by (simp add: s(1))
qed

lemma unat_read_be: "n \<le> 8 \<Longrightarrow> unat (read_be b n) = be_value (take n b)"
  using unat_read_be_from[of 0 0 "take n b"] by (simp add: read_be_def be_value_def)

lemma unat_byte_eq:
  assumes "n < 256"
  shows "(n = unat (t::byte)) \<longleftrightarrow> (t = of_nat n)"
proof
  assume "n = unat t"
  then show "t = of_nat n" by simp
next
  assume "t = of_nat n"
  with assms show "n = unat t" by (simp add: unat_of_nat)
qed

lemma get_message_length_switch: "get_message_length t = message_length_by_type t"
proof -
  have "unat t < 256" using unsigned_less[of t, where ?'a = nat] by simp
  then show ?thesis
    unfolding get_message_length_def message_length_by_type_def ITCH_MSG_LENGTHS_def ord_def
    by (simp add: nth_list_update unat_byte_eq)
qed

lemma canonical_length_switch: "canonical_length t = message_length_by_type t"
  unfolding canonical_length_def canonical_table_def message_length_by_type_def
  by simp

subsection \<open>The length lookup\<close>

text \<open>
  Claim C2. The lookup from a type byte to a length is defined on every byte and is the
  canonical table (S 12, R 39, H 25, Y 20, L 26, V 35, W 12, K 28, A 36, F 40, E 31,
  C 36, X 23, D 19, U 35, P 44, Q 40, B 19, I 50, N 20), with 0 for every byte that is
  not in the table; the server's array and the parser's \<open>switch\<close> agree on every byte.
\<close>

theorem message_length_lookup_canonical:
  "message_length_by_type t = canonical_length t \<and>
   get_message_length t = canonical_length t \<and>
   get_itch_message_length t = canonical_length t \<and>
   get_message_length t = get_itch_message_length t"
proof -
  have sw: "message_length_by_type t = canonical_length t"
    by (simp add: canonical_length_switch)
  have arr: "get_message_length t = message_length_by_type t"
    by (rule get_message_length_switch)
  have ext: "get_itch_message_length t = message_length_by_type t"
    by (simp add: get_itch_message_length_def)
  show ?thesis using sw arr ext by simp
qed

subsection \<open>The timestamp\<close>

lemma timestamp_top_bits: "drop_bit 48 (parse_timestamp b) = 0"
  by (rule bit_word_eqI) (simp add: parse_timestamp_def bit_simps bit_bswap64)

text \<open>
  Claim C3. On an input with at least 8 readable bytes the timestamp decoder returns the
  unsigned big-endian value of the first 6 bytes: a 64-bit result whose top 16 bits are
  zero, equal to the byte swap of the 8 bytes of the input followed by two zero bytes,
  shifted right by 16. The server's \<open>read_timestamp\<close> is the same function.
\<close>

theorem timestamp_decoder_big_endian:
  assumes "8 \<le> length b"
  shows "unat (parse_timestamp b) = be_value (take 6 b) \<and>
         parse_timestamp b = read_be b 6 \<and>
         drop_bit 48 (parse_timestamp b) = 0 \<and>
         parse_timestamp b = drop_bit 16 (bswap64 (load_le (take 6 b @ [0, 0]))) \<and>
         read_timestamp b = parse_timestamp b"
proof -
  have rb: "parse_timestamp b = read_be b 6"
    using parse_timestamp_read_be_from[OF assms] by (simp add: read_be_def)
  have v: "unat (parse_timestamp b) = be_value (take 6 b)"
    unfolding rb by (rule unat_read_be) simp
  have six: "6 \<le> length b" using assms by linarith
  have l: "length (take 6 b @ [0, 0]) = 8" using six by simp
  have "parse_timestamp (take 6 b @ [0, 0]) = read_be_from 0 (take 6 (take 6 b @ [0, 0]))"
    by (rule parse_timestamp_read_be_from) (simp only: l order_refl)
  also have "take 6 (take 6 b @ [0, 0]) = take 6 b" using six by simp
  finally have "parse_timestamp (take 6 b @ [0, 0]) = parse_timestamp b"
    using parse_timestamp_read_be_from[OF assms] by simp
  moreover have "take 8 (take 6 b @ [0, 0]) = take 6 b @ [0, 0]" using l by simp
  ultimately have p: "parse_timestamp b = drop_bit 16 (bswap64 (load_le (take 6 b @ [0, 0])))"
    by (simp add: parse_timestamp_def)
  show ?thesis
    using rb v p timestamp_top_bits[of b] by (simp add: read_timestamp_def parse_timestamp_def)
qed

theorem timestamp_decoder_big_endian_witness:
  "8 \<le> length [0x1F, 0x1A, 0xCE, 0xD9, 0xF0, 0x00, 0x4F, 0x41 :: byte] \<and>
   unat (parse_timestamp [0x1F, 0x1A, 0xCE, 0xD9, 0xF0, 0x00, 0x4F, 0x41]) = 34200000000000 \<and>
   read_timestamp [0x1F, 0x1A, 0xCE, 0xD9, 0xF0, 0x00, 0x4F, 0x41] = 34200000000000"
  using timestamp_decoder_big_endian[of "[0x1F, 0x1A, 0xCE, 0xD9, 0xF0, 0x00, 0x4F, 0x41]"]
  by (simp add: be_value_def read_be_def)

section \<open>The loops frame as the specification says\<close>

lemma items_of_append [simp]: "items_of (xs @ ys) = items_of xs @ items_of ys"
  by (simp add: items_of_def)

lemma items_of_Nil [simp]: "items_of [] = []"
  by (simp add: items_of_def)

lemma items_of_Cons [simp]: "items_of (e # es) = item_of e @ items_of es"
  by (simp add: items_of_def)

lemma good_Nil [simp]: "good []"
  by (simp add: good_def)

lemma good_single [simp]: "good [c]"
  by (simp add: good_def)

lemma good_Cons: "good (c # cs) \<longleftrightarrow> cs = [] \<or> (50 \<le> rd_size c \<and> good cs)"
  by (auto simp: good_def)

lemma good_tl: "good cs \<Longrightarrow> good (tl cs)"
  by (cases cs) (auto simp: good_Cons)

lemma message_length_le: "get_message_length t \<le> 50"
  unfolding get_message_length_switch message_length_by_type_def by simp

text \<open>What a read from an error-free source can return.\<close>

lemma source_read_clean:
  assumes "source_read n xs = (r, xs')" and "clean xs"
  obtains "xs = []" "r = Rd []" "xs' = []"
  | c cs where "xs = Rd c # cs" "length c \<le> n" "r = Rd c" "xs' = cs" "clean cs"
  | c cs where "xs = Rd c # cs" "n < length c" "r = Rd (take n c)" "xs' = Rd (drop n c) # cs"
      "clean cs"
proof (cases xs)
  case Nil
  then show ?thesis using assms that(1) by simp
next
  case (Cons x cs)
  then obtain c where x: "x = Rd c" using assms(2) by (cases x) (auto simp: clean_def)
  have cl: "clean cs" using assms(2) Cons by (simp add: clean_def)
  show ?thesis
  proof (cases "length c \<le> n")
    case True
    then show ?thesis using assms(1) Cons x cl that(2) by simp
  next
    case False
    then show ?thesis using assms(1) Cons x cl that(3) by simp
  qed
qed

lemma refill_Break:
  assumes "replay_inv s" and "refill s = (Break, s1)"
  shows "stream s = [] \<and> items_of (out s1) = items_of (out s)"
proof -
  have low: "length (buf s) < BUFFER_SIZE div 2"
    using assms(2) by (auto simp: refill_def split: if_splits)
  obtain r xs' where rd: "source_read (BUFFER_SIZE - length (buf s)) (src s) = (r, xs')"
    by (cases "source_read (BUFFER_SIZE - length (buf s)) (src s)")
  have cl: "clean (src s)" using assms(1) by (simp add: replay_inv_def)
  have cap: "0 < BUFFER_SIZE - length (buf s)" using low by (simp add: BUFFER_SIZE_def)
  from rd cl show ?thesis
  proof (cases rule: source_read_clean)
    case 1
    then show ?thesis using assms(2) low rd
      by (auto simp: refill_def stream_def split: if_splits)
  next
    case (2 c cs)
    then have e: "c = []" "buf s = []" and o: "out s1 = out s @ [End_of_file]"
      using assms(2) low rd by (auto simp: refill_def split: if_splits)
    have "cs = []" using assms(1) 2(1) e by (auto simp: replay_inv_def good_Cons)
    then show ?thesis using 2(1) e o by (simp add: stream_def)
  next
    case (3 c cs)
    then have "take (BUFFER_SIZE - length (buf s)) c = []"
      using assms(2) low rd by (auto simp: refill_def split: if_splits)
    then show ?thesis using 3(2) cap by simp
  qed
qed

lemma refill_Next:
  assumes "replay_inv s" and "refill s = (Next, s1)"
  shows "stream s1 = stream s \<and> out s1 = out s \<and> refilled_inv s1 \<and> buf s1 \<noteq> [] \<and>
         prev_timestamp s1 = prev_timestamp s \<and>
         (length (buf s1) < 50 \<longrightarrow> good (src s1))"
proof (cases "length (buf s) < BUFFER_SIZE div 2")
  case False
  then have "s1 = s" using assms(2) by (simp add: refill_def)
  moreover have "32768 \<le> length (buf s)" using False by (simp add: BUFFER_SIZE_def)
  ultimately show ?thesis using assms(1) by (auto simp: replay_inv_def refilled_inv_def)
next
  case low: True
  obtain r xs' where rd: "source_read (BUFFER_SIZE - length (buf s)) (src s) = (r, xs')"
    by (cases "source_read (BUFFER_SIZE - length (buf s)) (src s)")
  have cl: "clean (src s)" using assms(1) by (simp add: replay_inv_def)
  have cap: "32768 < BUFFER_SIZE - length (buf s)" using low by (simp add: BUFFER_SIZE_def)
  from rd cl show ?thesis
  proof (cases rule: source_read_clean)
    case 1
    then have "s1 = s\<lparr>buf := buf s @ [], src := []\<rparr>" "buf s \<noteq> []"
      using assms(2) low rd by (auto simp: refill_def split: if_splits)
    then show ?thesis using 1 by (simp add: stream_def refilled_inv_def clean_def)
  next
    case (2 c cs)
    then have s1: "s1 = s\<lparr>buf := buf s @ c, src := cs\<rparr>" and ne: "c \<noteq> [] \<or> buf s \<noteq> []"
      using assms(2) low rd by (auto simp: refill_def split: if_splits)
    have g: "good cs" using assms(1) 2(1) by (auto simp: replay_inv_def good_Cons)
    show ?thesis using s1 ne 2 g by (auto simp: stream_def refilled_inv_def)
  next
    case (3 c cs)
    then have s1: "s1 = s\<lparr>buf := buf s @ take (BUFFER_SIZE - length (buf s)) c,
        src := Rd (drop (BUFFER_SIZE - length (buf s)) c) # cs\<rparr>"
      using assms(2) low rd by (auto simp: refill_def split: if_splits)
    have g: "good cs" using assms(1) 3(1) by (auto simp: replay_inv_def good_Cons)
    have full: "length (buf s1) = BUFFER_SIZE"
      using s1 3(2) low by (simp add: BUFFER_SIZE_def min_def)
    show ?thesis using s1 3 g full low
      by (auto simp: stream_def refilled_inv_def clean_def BUFFER_SIZE_def)
  qed
qed

lemma wait_complete_Break:
  assumes "refilled_inv s1" and "length (buf s1) < 50 \<longrightarrow> good (src s1)"
    and "L \<le> 50" and "wait_complete L s1 = (Break, s2)"
  shows "length (stream s1) < L \<and> items_of (out s2) = items_of (out s1)"
proof -
  have short: "length (buf s1) < L"
    using assms(4) by (auto simp: wait_complete_def split: if_splits)
  then have g: "good (src s1)" using assms(2,3) by simp
  obtain r xs' where rd: "source_read (BUFFER_SIZE - length (buf s1)) (src s1) = (r, xs')"
    by (cases "source_read (BUFFER_SIZE - length (buf s1)) (src s1)")
  have cl: "clean (src s1)" using assms(1) by (simp add: refilled_inv_def)
  have cap: "50 < BUFFER_SIZE - length (buf s1)"
    using short assms(3) by (simp add: BUFFER_SIZE_def)
  from rd cl show ?thesis
  proof (cases rule: source_read_clean)
    case 1
    then show ?thesis using assms(4) short rd
      by (auto simp: wait_complete_def stream_def split: if_splits)
  next
    case (2 c cs)
    then have c: "c = [] \<or> length (buf s1 @ c) < L" and o: "items_of (out s2) = items_of (out s1)"
      using assms(4) short rd by (auto simp: wait_complete_def split: if_splits)
    then have "length c < 50" using assms(3) by auto
    then have "cs = []" using g 2(1) by (auto simp: good_Cons)
    then show ?thesis using 2(1) c o short by (auto simp: stream_def)
  next
    case (3 c cs)
    have "length (buf s1 @ take (BUFFER_SIZE - length (buf s1)) c) = BUFFER_SIZE"
      using 3(2) cap by (simp add: min_def)
    moreover have "take (BUFFER_SIZE - length (buf s1)) c \<noteq> []" using 3(2) cap by auto
    ultimately show ?thesis using assms(3,4) short rd 3
      by (auto simp: wait_complete_def BUFFER_SIZE_def split: if_splits)
  qed
qed

lemma wait_complete_Next:
  assumes "refilled_inv s1" and "length (buf s1) < 50 \<longrightarrow> good (src s1)"
    and "L \<le> 50" and "wait_complete L s1 = (Next, s2)"
  shows "stream s2 = stream s1 \<and> out s2 = out s1 \<and> prev_timestamp s2 = prev_timestamp s1 \<and>
         L \<le> length (buf s2) \<and> refilled_inv s2"
proof (cases "length (buf s1) < L")
  case False
  then have "s2 = s1" using assms(4) by (simp add: wait_complete_def)
  then show ?thesis using False assms(1) by simp
next
  case short: True
  then have g: "good (src s1)" using assms(2,3) by simp
  obtain r xs' where rd: "source_read (BUFFER_SIZE - length (buf s1)) (src s1) = (r, xs')"
    by (cases "source_read (BUFFER_SIZE - length (buf s1)) (src s1)")
  have cl: "clean (src s1)" using assms(1) by (simp add: refilled_inv_def)
  have cap: "50 < BUFFER_SIZE - length (buf s1)"
    using short assms(3) by (simp add: BUFFER_SIZE_def)
  from rd cl show ?thesis
  proof (cases rule: source_read_clean)
    case 1
    then show ?thesis using assms(4) short rd
      by (auto simp: wait_complete_def split: if_splits)
  next
    case (2 c cs)
    then have s2: "s2 = s1\<lparr>buf := buf s1 @ c, src := cs\<rparr>" and l: "L \<le> length (buf s1 @ c)"
      using assms(4) short rd by (auto simp: wait_complete_def split: if_splits)
    have "good cs" using g 2(1) by (auto simp: good_Cons)
    then show ?thesis using s2 l 2 by (auto simp: stream_def refilled_inv_def)
  next
    case (3 c cs)
    then have s2: "s2 = s1\<lparr>buf := buf s1 @ take (BUFFER_SIZE - length (buf s1)) c,
        src := Rd (drop (BUFFER_SIZE - length (buf s1)) c) # cs\<rparr>"
      using assms(4) short rd by (auto simp: wait_complete_def split: if_splits)
    have full: "length (buf s2) = BUFFER_SIZE"
      using s2 3(2) cap by (simp add: min_def)
    have "good cs" using g 3(1) by (auto simp: good_Cons)
    then show ?thesis using s2 3 full assms(3)
      by (auto simp: stream_def refilled_inv_def clean_def BUFFER_SIZE_def)
  qed
qed

lemma refilled_inv_consume:
  assumes "refilled_inv s2" and "k \<le> 50" and "src s' = src s2" and "buf s' = drop k (buf s2)"
  shows "replay_inv s'"
  using assms by (auto simp: refilled_inv_def replay_inv_def)

lemma items_of_pace [simp]: "items_of (pace scaled m p c) = []"
  by (simp add: pace_def nsleep_def Let_def)

lemma canonical_length_get: "canonical_length t = get_message_length t"
  by (simp add: get_message_length_switch canonical_length_switch)

lemma replay_step_framing:
  assumes "replay_inv s"
  shows "(fst (replay_step scaled m s) = Break \<longrightarrow>
            spec_framing (stream s) = [] \<and>
            items_of (out (snd (replay_step scaled m s))) = items_of (out s)) \<and>
         (fst (replay_step scaled m s) = Next \<longrightarrow>
            replay_inv (snd (replay_step scaled m s)) \<and>
            items_of (out (snd (replay_step scaled m s)))
              @ spec_framing (stream (snd (replay_step scaled m s)))
            = items_of (out s) @ spec_framing (stream s))"
proof (cases "refill s")
  case (Pair f s1)
  show ?thesis
  proof (cases f)
    case Break
    then have "replay_step scaled m s = (Break, s1)" using Pair by (simp add: replay_step_def)
    then show ?thesis using refill_Break[OF assms] Pair Break by simp
  next
    case Next
    note r = refill_Next[OF assms Pair[unfolded Next]]
    then obtain t rest where b: "buf s1 = t # rest" by (cases "buf s1") auto
    have st: "stream s = t # (rest @ concat (map rd_bytes (src s1)))"
      using r b by (simp add: stream_def)
    show ?thesis
    proof (cases "get_message_length t = 0")
      case True
      then have e: "replay_step scaled m s =
          (Next, s1\<lparr>buf := rest, out := out s1 @ [Unknown_message_type t]\<rparr>)"
        using Pair Next b by (simp add: replay_step_def)
      have "replay_inv (s1\<lparr>buf := rest, out := out s1 @ [Unknown_message_type t]\<rparr>)"
        using r b by (intro refilled_inv_consume[of s1 1]) simp_all
      moreover have "spec_framing (stream s) =
          Unknown t # spec_framing (rest @ concat (map rd_bytes (src s1)))"
        unfolding st using True by (simp add: spec_framing.simps(2) canonical_length_get)
      ultimately show ?thesis using e r by (simp add: stream_def)
    next
      case False
      let ?L = "get_message_length t"
      have L: "?L \<le> 50" by (rule message_length_le)
      obtain f2 s2 where w: "wait_complete ?L s1 = (f2, s2)" by (cases "wait_complete ?L s1")
      show ?thesis
      proof (cases f2)
        case Break
        then have e: "replay_step scaled m s = (Break, s2)"
          using Pair Next b False w by (simp add: replay_step_def)
        have wb: "length (stream s1) < ?L \<and> items_of (out s2) = items_of (out s1)"
          using wait_complete_Break[of s1 ?L s2] r L w Break by simp
        then have "spec_framing (stream s) = []"
          using r False unfolding st
          by (simp add: spec_framing.simps(2) canonical_length_get)
        then show ?thesis using e wb r by simp
      next
        case n2: Next
        then have e: "replay_step scaled m s = (Next, emit scaled m ?L s2)"
          using Pair Next b False w by (simp add: replay_step_def)
        have wn: "stream s2 = stream s1" "out s2 = out s1" "?L \<le> length (buf s2)" "refilled_inv s2"
          using wait_complete_Next[of s1 ?L s2] r L w n2 by simp_all
        have i: "replay_inv (emit scaled m ?L s2)"
          using wn(4) L by (rule refilled_inv_consume) (simp_all add: emit_def Let_def)
        have ss: "stream s = buf s2 @ concat (map rd_bytes (src s2))"
          using wn(1) r by (simp add: stream_def)
        have len: "\<not> length (stream s) < ?L"
          unfolding ss using wn(3) by simp
        have tk: "take ?L (stream s) = take ?L (buf s2)"
          unfolding ss using wn(3) by simp
        have dr: "drop ?L (stream s) = stream (emit scaled m ?L s2)"
          unfolding ss using wn(3) by (simp add: stream_def emit_def Let_def)
        have "spec_framing (stream s) =
            Frame (take ?L (buf s2)) # spec_framing (stream (emit scaled m ?L s2))"
          using False len tk dr unfolding st
          by (simp add: spec_framing.simps(2) canonical_length_get)
        moreover have "items_of (out (emit scaled m ?L s2)) =
            items_of (out s) @ [Frame (take ?L (buf s2))]"
          using wn(2) r by (simp add: emit_def Let_def)
        ultimately show ?thesis using e i by simp
      qed
    qed
  qed
qed

lemma replay_loop_framing:
  "replay_inv s \<Longrightarrow> items_of (out (replay_loop scaled m s)) = items_of (out s) @ spec_framing (stream s)"
proof (induction scaled m s rule: replay_loop.induct)
  case (1 scaled m s)
  note f = replay_step_framing[OF "1.prems", of scaled m]
  show ?case
  proof (cases "fst (replay_step scaled m s) = Next")
    case True
    then show ?thesis
      using f "1.IH"[OF True] by (subst replay_loop.simps) simp
  next
    case False
    then have "fst (replay_step scaled m s) = Break" by (cases "fst (replay_step scaled m s)") auto
    then show ?thesis using f by (subst replay_loop.simps) simp
  qed
qed

lemma client_items_of_append [simp]:
  "client_items_of (xs @ ys) = client_items_of xs @ client_items_of ys"
  by (simp add: client_items_of_def)

lemma client_items_of_Nil [simp]: "client_items_of [] = []"
  by (simp add: client_items_of_def)

lemma client_items_of_Cons [simp]:
  "client_items_of (e # es) = client_item_of e @ client_items_of es"
  by (simp add: client_items_of_def)

lemma canonical_length_itch: "canonical_length t = get_itch_message_length t"
  by (simp add: get_itch_message_length_def canonical_length_switch)

lemma itch_length_le: "get_itch_message_length t \<le> 50"
  unfolding get_itch_message_length_def message_length_by_type_def by simp

lemma parse_buffer_framing:
  "client_items_of (seen (parse_buffer verbose s)) @ spec_framing (cbuf (parse_buffer verbose s) @ ys)
     = client_items_of (seen s) @ spec_framing (cbuf s @ ys) \<and>
   spec_framing (cbuf (parse_buffer verbose s)) = [] \<and>
   length (cbuf (parse_buffer verbose s)) < 50"
proof (induction verbose s arbitrary: ys rule: parse_buffer.induct)
  case (1 verbose s)
  show ?case
  proof (cases "cbuf s")
    case Nil
    then have p: "parse_buffer verbose s = s" by (subst parse_buffer.simps) simp
    show ?thesis unfolding p using Nil by simp
  next
    case (Cons t rest)
    let ?L = "get_itch_message_length t"
    show ?thesis
    proof (cases "?L = 0")
      case True
      let ?s = "s\<lparr>cbuf := rest, seen := seen s @ [Unknown_type t]\<rparr>"
      have p: "parse_buffer verbose s = parse_buffer verbose ?s"
        using Cons True by (subst parse_buffer.simps) simp
      have "spec_framing (cbuf s @ ys) = Unknown t # spec_framing (rest @ ys)"
        using Cons True by (simp add: spec_framing.simps(2) canonical_length_itch)
      then show ?thesis
        unfolding p using "1.IH"(1)[OF Cons refl True, of ys] Cons by auto
    next
      case False
      show ?thesis
      proof (cases "length (cbuf s) < ?L")
        case True
        then have p: "parse_buffer verbose s = s"
          using Cons False by (subst parse_buffer.simps) simp
        have "spec_framing (cbuf s) = []"
          using Cons False True by (simp add: spec_framing.simps(2) canonical_length_itch)
        moreover have "length (cbuf s) < 50" using True itch_length_le[of t] by simp
        ultimately show ?thesis unfolding p by simp
      next
        case long: False
        define st where "st = count_message t ?L (cstats s)"
        define s' where "s' = s\<lparr>cbuf := drop ?L (cbuf s), cstats := st,
           seen := seen s
             @ (if verbose then [Parsed (parse_itch_message (cbuf s) ?L)] else [])
             @ [Framed (take ?L (cbuf s))]
             @ (if total_messages st mod 100000 = 0
                then [Received (total_messages st) (stats_total_bytes st)] else [])\<rparr>"
        have p: "parse_buffer verbose s = parse_buffer verbose s'"
          using Cons False long by (subst parse_buffer.simps) (simp add: s'_def st_def Let_def)
        have ih: "client_items_of (seen (parse_buffer verbose s')) @ spec_framing (cbuf (parse_buffer verbose s') @ ys)
             = client_items_of (seen s') @ spec_framing (cbuf s' @ ys) \<and>
           spec_framing (cbuf (parse_buffer verbose s')) = [] \<and>
           length (cbuf (parse_buffer verbose s')) < 50"
          unfolding s'_def st_def
          by (rule "1.IH"(2)[OF Cons refl False long refl])
        have le: "?L \<le> length (cbuf s)" using long by simp
        have tk: "take ?L (cbuf s @ ys) = take ?L (cbuf s)"
          and dr: "drop ?L (cbuf s @ ys) = drop ?L (cbuf s) @ ys"
          using le by simp_all
        have cs: "t # (rest @ ys) = cbuf s @ ys" using Cons by simp
        have "spec_framing (t # (rest @ ys)) =
            Frame (take ?L (t # (rest @ ys))) # spec_framing (drop ?L (t # (rest @ ys)))"
          using False le Cons by (simp add: spec_framing.simps(2) canonical_length_itch)
        then have "spec_framing (cbuf s @ ys) =
            Frame (take ?L (cbuf s)) # spec_framing (drop ?L (cbuf s) @ ys)"
          unfolding cs tk dr .
        moreover have "client_items_of (seen s') = client_items_of (seen s) @ [Frame (take ?L (cbuf s))]"
          by (simp add: s'_def)
        moreover have "cbuf s' = drop ?L (cbuf s)" by (simp add: s'_def)
        ultimately show ?thesis unfolding p using ih by auto
      qed
    qed
  qed
qed

lemma client_loop_framing:
  "client_inv s \<Longrightarrow>
     client_items_of (seen (client_loop verbose s)) = client_items_of (seen s) @ spec_framing (client_stream s)"
proof (induction verbose s rule: client_loop.induct)
  case (1 verbose s)
  have cl: "clean (net s)" and ne: "\<forall>c \<in> set (net s). rd_size c \<noteq> 0"
    and sh: "length (cbuf s) < 50" and fr: "spec_framing (cbuf s) = []"
    using "1.prems" by (simp_all add: client_inv_def)
  obtain r xs' where rd: "source_read (BUFFER_SIZE - length (cbuf s)) (net s) = (r, xs')"
    by (cases "source_read (BUFFER_SIZE - length (cbuf s)) (net s)")
  have cap: "50 < BUFFER_SIZE - length (cbuf s)" using sh by (simp add: BUFFER_SIZE_def)
  have step: "?case"
    if r: "r = Rd bs" and bne: "bs \<noteq> []" and clr: "clean xs'"
      and ner: "\<forall>c \<in> set xs'. rd_size c \<noteq> 0"
      and cat: "bs @ concat (map rd_bytes xs') = concat (map rd_bytes (net s))" for bs
  proof -
    define s0 where "s0 = s\<lparr>cbuf := cbuf s @ bs, net := xs'\<rparr>"
    define s1 where "s1 = parse_buffer verbose s0"
    define s2 where "s2 = (if 58982 < length (cbuf s1)
       then s1\<lparr>seen := seen s1 @ [Buffer_nearly_full]\<rparr> else s1)"
    have e: "client_loop verbose s = client_loop verbose s2"
      using rd r bne by (subst client_loop.simps) (simp add: s0_def s1_def s2_def Let_def)
    note pf = parse_buffer_framing[of verbose s0 "concat (map rd_bytes xs')", folded s1_def]
    have n1: "net s1 = xs'" by (simp add: s1_def net_parse_buffer s0_def)
    have inv2: "client_inv s2"
      using pf n1 clr ner by (simp add: client_inv_def s2_def)
    have ih: "client_items_of (seen (client_loop verbose s2)) =
        client_items_of (seen s2) @ spec_framing (client_stream s2)"
      using "1.IH"[OF rd[symmetric] r bne s1_def[unfolded s0_def]] inv2
      by (simp add: s2_def)
    have "client_items_of (seen s2) @ spec_framing (client_stream s2) =
        client_items_of (seen s1) @ spec_framing (cbuf s1 @ concat (map rd_bytes xs'))"
      using n1 by (simp add: s2_def client_stream_def)
    also have "\<dots> = client_items_of (seen s) @ spec_framing (cbuf s @ bs @ concat (map rd_bytes xs'))"
      using pf by (simp add: s0_def)
    finally show ?thesis unfolding e ih using cat by (simp add: client_stream_def)
  qed
  from rd cl show ?case
  proof (cases rule: source_read_clean)
    case 1
    then have "client_loop verbose s = s\<lparr>net := [], seen := seen s @ [Server_disconnected]\<rparr>"
      using rd by (subst client_loop.simps) simp
    then show ?thesis using 1 fr by (simp add: client_stream_def)
  next
    case (2 c cs)
    have "c \<noteq> []" using ne 2(1) by auto
    then show ?thesis using 2 ne by (intro step[of c]) auto
  next
    case (3 c cs)
    have "take (BUFFER_SIZE - length (cbuf s)) c \<noteq> []" using 3(2) cap by auto
    moreover have "drop (BUFFER_SIZE - length (cbuf s)) c \<noteq> []" using 3(2) by simp
    ultimately show ?thesis using 3 ne
      by (intro step[of "take (BUFFER_SIZE - length (cbuf s)) c"]) (auto simp: clean_def)
  qed
qed

section \<open>The claims about framing\<close>

lemma broadcasts_items: "broadcasts es = frames_of (items_of es)"
  by (induction es rule: broadcasts.induct) simp_all

lemma unknown_diagnostics_items: "unknown_diagnostics es = unknowns_of (items_of es)"
  by (induction es rule: unknown_diagnostics.induct) simp_all

lemma frames_of_map_Frame [simp]: "frames_of (map Frame ms) = ms"
  by (induction ms) simp_all

lemma unknowns_of_map_Frame [simp]: "unknowns_of (map Frame ms) = []"
  by (induction ms) simp_all

lemma spec_framing_concat:
  "\<forall>msg \<in> set ms. well_formed_message msg \<Longrightarrow>
     spec_framing (concat ms @ ys) = map Frame ms @ spec_framing ys"
proof (induction ms)
  case Nil
  then show ?case by simp
next
  case (Cons m ms)
  then obtain t rest where m: "m = t # rest" and L: "canonical_length t \<noteq> 0"
    and len: "length (t # rest) = canonical_length t"
    by (cases m) (auto simp: well_formed_message_def)
  have tk: "take (canonical_length t) (t # rest @ concat ms @ ys) = t # rest"
    and dr: "drop (canonical_length t) (t # rest @ concat ms @ ys) = concat ms @ ys"
    using len[symmetric] by simp_all
  have "spec_framing ((t # rest) @ concat ms @ ys) =
        Frame (t # rest) # spec_framing (concat ms @ ys)"
    using L len[symmetric] tk dr by (simp add: spec_framing.simps(2))
  then show ?case using Cons m by simp
qed

lemma replay_inv_single: "replay_inv (initial_state [Rd bs] m)"
  by (simp add: replay_inv_def initial_state_def clean_def)

lemma replay_itch_file_items:
  assumes "replay_inv (initial_state xs m)"
  shows "items_of (snd (replay_itch_file scaled (Some xs) m)) = spec_framing (concat (map rd_bytes xs))"
  using replay_loop_framing[OF assms, of scaled]
  by (simp add: replay_itch_file_def Let_def initial_state_def stream_def)

lemma client_inv_start:
  "\<forall>c \<in> set chunks. c \<noteq> [] \<Longrightarrow> client_inv (client_start (map Rd chunks))"
  by (auto simp: client_inv_def client_start_def clean_def)

lemma framed_items: "framed es = frames_of (client_items_of es)"
  by (induction es rule: framed.induct) simp_all

lemma client_unknowns_items: "client_unknowns es = unknowns_of (client_items_of es)"
  by (induction es rule: client_unknowns.induct) simp_all

lemma client_items:
  assumes "\<forall>c \<in> set chunks. c \<noteq> []"
  shows "client_items_of (seen (client_loop verbose (client_start (map Rd chunks))))
     = spec_framing (concat chunks)"
proof -
  have "map rd_bytes (map Rd chunks) = chunks" by (induction chunks) simp_all
  then show ?thesis
    using client_loop_framing[OF client_inv_start[OF assms], of verbose]
    by (simp add: client_stream_def client_start_def)
qed

text \<open>
  Claim C1. For every input formed by concatenating well-formed messages whose type
  bytes are in the table, the framing loop emits exactly those messages, in the same
  order, and each emitted message is as long as the table says for its type byte. The
  server reads the file (\<open>fread\<close>, \<open>gzread\<close>: the source whose one chunk is the whole
  file); the client receives the same bytes cut into any non-empty pieces.
\<close>

theorem framing_round_trip:
  assumes "\<forall>msg \<in> set ms. well_formed_message msg"
    and "\<forall>c \<in> set chunks. c \<noteq> []" and "concat chunks = concat ms"
  shows "broadcasts (snd (replay_itch_file scaled (Some [Rd (concat ms)]) speed_multiplier)) = ms \<and>
         unknown_diagnostics (snd (replay_itch_file scaled (Some [Rd (concat ms)]) speed_multiplier)) = [] \<and>
         framed (seen (client_loop verbose (client_start (map Rd chunks)))) = ms \<and>
         client_unknowns (seen (client_loop verbose (client_start (map Rd chunks)))) = [] \<and>
         (\<forall>msg \<in> set (broadcasts (snd (replay_itch_file scaled (Some [Rd (concat ms)])
              speed_multiplier))). length msg = get_message_length (hd msg)) \<and>
         (\<forall>msg \<in> set (framed (seen (client_loop verbose (client_start (map Rd chunks))))).
              length msg = get_itch_message_length (hd msg))"
proof -
  have f: "spec_framing (concat ms) = map Frame ms"
    using spec_framing_concat[OF assms(1), of "[]"] by simp
  have a: "items_of (snd (replay_itch_file scaled (Some [Rd (concat ms)]) speed_multiplier)) = map Frame ms"
    using replay_itch_file_items[OF replay_inv_single] f by simp
  have b: "client_items_of (seen (client_loop verbose (client_start (map Rd chunks)))) = map Frame ms"
    using client_items[OF assms(2), of verbose] assms(3) f by simp
  have c: "\<forall>msg \<in> set ms. length msg = get_message_length (hd msg)"
    using assms(1) by (simp add: well_formed_message_def canonical_length_get[symmetric])
  have d: "\<forall>msg \<in> set ms. length msg = get_itch_message_length (hd msg)"
    using assms(1) by (simp add: well_formed_message_def canonical_length_itch[symmetric])
  show ?thesis
    using c d
    by (simp add: broadcasts_items unknown_diagnostics_items framed_items client_unknowns_items a b)
qed

lemma well_formed_system_event: "well_formed_message system_event"
  by (simp add: well_formed_message_def system_event_def canonical_length_def canonical_table_def)

theorem framing_round_trip_witness:
  "well_formed_message system_event \<and>
   broadcasts (snd (replay_itch_file unscaled
      (Some [Rd (concat [system_event, system_event])]) 1)) = [system_event, system_event] \<and>
   framed (seen (client_loop False (client_start
      (map Rd [take 5 system_event, drop 5 system_event @ system_event]))))
     = [system_event, system_event]"
  using framing_round_trip[where ms = "[system_event, system_event]"
      and chunks = "[take 5 system_event, drop 5 system_event @ system_event]"
      and scaled = unscaled and speed_multiplier = 1 and verbose = False]
    well_formed_system_event
  by (simp add: system_event_def)

text \<open>The equations that run the server's loop on concrete bytes.\<close>

lemmas replay_eval =
  replay_itch_file_def initial_state_def replay_loop.simps replay_step_def refill_def
  wait_complete_def emit_def pace_def nsleep_def get_message_length_def ITCH_MSG_LENGTHS_def
  ord_def BUFFER_SIZE_def Let_def read_timestamp_value unscaled_def

lemma rd_bytes_map_Rd [simp]: "map rd_bytes (map Rd chunks) = chunks"
  by (induction chunks) simp_all

lemma rd_bytes_comp_Rd [simp]: "rd_bytes \<circ> Rd = id"
  by (rule ext) simp

lemma spec_framing_unknown:
  "get_message_length t = 0 \<Longrightarrow> spec_framing (t # ys) = Unknown t # spec_framing ys"
  by (simp add: spec_framing.simps(2) canonical_length_get)

text \<open>
  Claim C4. Whenever the byte at the front of the framer's buffer has table length 0,
  the framer emits a diagnostic with the offending byte, takes exactly that one byte
  from the front of the buffer, emits no framed message for it, and goes on framing
  what follows: in one pass of the server's loop and of the client's, and for a whole
  run on an unknown byte followed by any stream (for well-formed messages: one
  diagnostic, then the messages intact).
\<close>

theorem unknown_type_resync:
  assumes "get_message_length t = 0"
  shows "(refill s = (Next, s1) \<and> buf s1 = t # rest \<longrightarrow>
            replay_step scaled m s =
              (Next, s1\<lparr>buf := rest, out := out s1 @ [Unknown_message_type t]\<rparr>)) \<and>
         (cbuf c = t # rest \<longrightarrow>
            parse_buffer verbose c =
              parse_buffer verbose (c\<lparr>cbuf := rest, seen := seen c @ [Unknown_type t]\<rparr>)) \<and>
         items_of (snd (replay_itch_file scaled (Some [Rd (t # ys)]) m))
           = Unknown t # spec_framing ys \<and>
         client_items_of (seen (client_loop verbose (client_start [Rd (t # ys)])))
           = Unknown t # spec_framing ys \<and>
         ((\<forall>msg \<in> set ms. well_formed_message msg) \<longrightarrow>
            broadcasts (snd (replay_itch_file scaled (Some [Rd (t # concat ms)]) m)) = ms \<and>
            unknown_diagnostics (snd (replay_itch_file scaled (Some [Rd (t # concat ms)]) m)) = [t])"
proof -
  have a: "refill s = (Next, s1) \<and> buf s1 = t # rest \<longrightarrow>
      replay_step scaled m s = (Next, s1\<lparr>buf := rest, out := out s1 @ [Unknown_message_type t]\<rparr>)"
    using assms by (simp add: replay_step_def)
  have "get_itch_message_length t = 0"
    using assms by (simp add: canonical_length_get[symmetric] canonical_length_itch)
  then have b: "cbuf c = t # rest \<longrightarrow>
      parse_buffer verbose c =
        parse_buffer verbose (c\<lparr>cbuf := rest, seen := seen c @ [Unknown_type t]\<rparr>)"
    by (subst parse_buffer.simps) simp
  have c: "items_of (snd (replay_itch_file scaled (Some [Rd bs]) m)) = spec_framing bs" for bs
    using replay_itch_file_items[OF replay_inv_single] by simp
  have d: "client_items_of (seen (client_loop verbose (client_start [Rd (t # ys)])))
      = spec_framing (t # ys)"
    using client_items[of "[t # ys]" verbose] by simp
  have e: "(\<forall>msg \<in> set ms. well_formed_message msg) \<longrightarrow>
      spec_framing (t # concat ms) = Unknown t # map Frame ms"
    using spec_framing_concat[of ms "[]"] spec_framing_unknown[OF assms] by simp
  show ?thesis
    using a b c d e spec_framing_unknown[OF assms]
    by (simp add: broadcasts_items unknown_diagnostics_items)
qed

theorem unknown_type_resync_witness:
  "get_message_length 0xFF = 0 \<and>
   items_of (snd (replay_itch_file unscaled (Some [Rd (0xFF # system_event)]) 1))
     = [Unknown 0xFF, Frame system_event] \<and>
   broadcasts (snd (replay_itch_file unscaled (Some [Rd (0xFF # concat [system_event])]) 1))
     = [system_event] \<and>
   unknown_diagnostics (snd (replay_itch_file unscaled (Some [Rd (0xFF # concat [system_event])]) 1))
     = [0xFF]"
proof -
  have z: "get_message_length 0xFF = 0"
    by (simp add: get_message_length_def ITCH_MSG_LENGTHS_def ord_def)
  have f: "spec_framing system_event = [Frame system_event]"
    using spec_framing_concat[of "[system_event]" "[]"] well_formed_system_event by simp
  show ?thesis
    using unknown_type_resync[OF z, where ys = system_event and ms = "[system_event]"
        and scaled = unscaled and m = 1] z f well_formed_system_event
    by simp
qed

text \<open>
  Claim C5. When fewer bytes are resident than the message needs, the framer reads once
  more; if the message is still short and the source is at its end, it reports a
  truncated trailing message, drops the partial bytes and ends normally. The run below
  is a file that holds the first five bytes of a System Event message and nothing
  else: the loop reads once more, gets no bytes, and leaves without the "Incomplete
  message at end of file" line; only the start and summary lines are printed.
\<close>

theorem truncated_tail_not_reported:
  "snd (replay_itch_file unscaled (Some [Rd [0x53, 0x00, 0x01, 0x00, 0x00]]) 1)
     = [Starting 1, Replay_complete 0 0]"
  by (simp add: replay_eval)

subsection \<open>Partitions with every message within two reads\<close>




lemma rd_size_bytes: "clean xs \<Longrightarrow> x \<in> set xs \<Longrightarrow> rd_size x = length (rd_bytes x)"
  by (cases x) (auto simp: clean_def)












text \<open>
  Three messages one to a read, and a read of no bytes after the last message, are such
  partitions; a message in three reads and a first read of no bytes are not.
\<close>

lemma within_two_reads_examples:
  "within_two_reads 0 [system_event, system_event, system_event]
     [system_event, system_event, system_event] \<and>
   within_two_reads 0 [system_event, []] [system_event] \<and>
   \<not> within_two_reads 0 [take 5 system_event, take 3 (drop 5 system_event), drop 8 system_event]
     [system_event] \<and>
   \<not> within_two_reads 0 [[], system_event] [system_event]"
  by (simp add: system_event_def)


section \<open>The pacer\<close>

lemma slept_nsleep: "slept_ns (nsleep d) = unat d"
proof -
  have "unat (d div 1000000000) * 1000000000 + unat (d mod 1000000000) = unat d"
    by (simp add: unat_div unat_mod)
  then show ?thesis by (simp add: nsleep_def)
qed

subsection \<open>Rounding to \<open>double\<close>\<close>

lemma binary_exponent_bounds:
  assumes "0 < x"
  shows "2 powi (binary_exponent x) \<le> x \<and> x < 2 powi (binary_exponent x + 1)"
proof (cases "1 \<le> x")
  case True
  define n where "n = \<lfloor>x\<rfloor>"
  have n: "0 < n" "of_int n \<le> x" "x < of_int n + 1" using True by (auto simp: n_def)
  have fb: "2 ^ nat (bitlen n - 1) \<le> n" "n < 2 ^ nat (bitlen n)"
    using bitlen_bounds[of n] n(1) by auto
  have pos: "0 < bitlen n" using n(1) by (simp add: bitlen_alt_def) 
  have e: "binary_exponent x = bitlen n - 1" 
    using True by (auto simp: binary_exponent_def n_def)
  have r0: "(2::real) ^ nat (bitlen n - 1) \<le> of_int n"
    using fb(1) by (metis of_int_le_iff of_int_numeral of_int_power)
  have r1: "(2::real) ^ nat (bitlen n - 1) \<le> x" using r0 n(2) by linarith
  have "n + 1 \<le> 2 ^ nat (bitlen n)" using fb(2) by simp
  then have "real_of_int (n + 1) \<le> real_of_int (2 ^ nat (bitlen n))" using of_int_le_iff by blast
  then have r2: "x < (2::real) ^ nat (bitlen n)" using n(3) by simp
  have p1: "2 powi (bitlen n - 1) = (2::real) ^ nat (bitlen n - 1)"
    using pos by (simp add: power_int_def)
  have p2: "2 powi (bitlen n - 1 + 1) = (2::real) ^ nat (bitlen n)"
    using pos by (simp add: power_int_def)
  show ?thesis unfolding e p1 p2 using r1 r2 by simp
next
  case False
  define c where "c = \<lceil>1 / x\<rceil> - 1"
  have x1: "x < 1" using False by simp
  have inv: "1 < 1 / x" using assms x1 by simp
  have c: "1 / x \<le> of_int c + 1" "of_int c < 1 / x" "0 < c"
    using inv by (auto simp: c_def) linarith+
  have fb: "2 ^ nat (bitlen c - 1) \<le> c" "c < 2 ^ nat (bitlen c)"
    using bitlen_bounds[of c] c(3) by auto
  have pos: "0 < bitlen c" using c(3) by (simp add: bitlen_alt_def)
  have e: "binary_exponent x = - bitlen c" using False by (simp add: binary_exponent_def c_def)
  have a: "1 / x \<le> (2::real) ^ nat (bitlen c)"
  proof -
    have "c + 1 \<le> 2 ^ nat (bitlen c)" using fb(2) by simp
    then have "real_of_int (c + 1) \<le> real_of_int (2 ^ nat (bitlen c))" using of_int_le_iff by blast
    then show ?thesis using c(1) by simp
  qed
  have b: "(2::real) ^ nat (bitlen c - 1) < 1 / x"
  proof -
    have "(2::real) ^ nat (bitlen c - 1) \<le> of_int c"
      using fb(1) by (metis of_int_le_iff of_int_numeral of_int_power)
    then show ?thesis using c(2) by linarith
  qed
  have p1: "2 powi (- bitlen c) = 1 / (2::real) ^ nat (bitlen c)"
    using pos by (simp add: power_int_def field_simps)
  have p2: "2 powi (- bitlen c + 1) = 1 / (2::real) ^ nat (bitlen c - 1)"
  proof -
    have "- bitlen c + 1 = - (bitlen c - 1)" by simp
    moreover have "0 \<le> bitlen c - 1" using pos by simp
    ultimately show ?thesis by (simp add: power_int_def field_simps)
  qed
  have g1: "1 / (2::real) ^ nat (bitlen c) \<le> x"
    using a assms by (simp add: field_simps)
  have g2: "x < 1 / (2::real) ^ nat (bitlen c - 1)"
    using b assms by (simp add: field_simps)
  show ?thesis unfolding e p1 p2 using g1 g2 by simp
qed

lemma binary_exponent_eq:
  assumes "0 < x" and "2 powi k \<le> x" and "x < 2 powi (k + 1)"
  shows "binary_exponent x = k"
proof -
  let ?e = "binary_exponent x"
  have b: "2 powi ?e \<le> x" "x < 2 powi (?e + 1)"
    using binary_exponent_bounds[OF assms(1)] by simp_all
  have "\<not> k + 1 \<le> ?e"
  proof
    assume "k + 1 \<le> ?e"
    then have "(2::real) powi (k + 1) \<le> 2 powi ?e" by (intro power_int_increasing) simp_all
    then show False using b(1) assms(3) by linarith
  qed
  moreover have "\<not> ?e + 1 \<le> k"
  proof
    assume "?e + 1 \<le> k"
    then have "(2::real) powi (?e + 1) \<le> 2 powi k" by (intro power_int_increasing) simp_all
    then show False using b(2) assms(2) by linarith
  qed
  ultimately show ?thesis by linarith
qed

lemma binary_exponent_log: "0 < x \<Longrightarrow> binary_exponent x = \<lfloor>log 2 x\<rfloor>"
proof -
  assume x: "0 < x"
  let ?e = "binary_exponent x"
  have p1: "2 powr real_of_int ?e = 2 powi ?e" by (simp add: powr_real_of_int')
  have "2 powr real_of_int (?e + 1) = 2 powi (?e + 1)" by (rule powr_real_of_int') simp_all
  then have p2: "2 powr (real_of_int ?e + 1) = 2 powi (?e + 1)" by simp
  have "2 powr real_of_int ?e \<le> x \<and> x < 2 powr (real_of_int ?e + 1)"
    unfolding p1 p2 by (rule binary_exponent_bounds[OF x])
  then show ?thesis using floor_log_eq_powr_iff[of x 2 ?e] x by simp
qed

lemma round_half_even_of_int [simp]: "round_half_even (of_int k) = k"
  by (simp add: round_half_even_def)

lemma round_half_even_error: "\<bar>of_int (round_half_even y) - y\<bar> \<le> 1 / 2"
  by (auto simp: round_half_even_def Let_def)

lemma round_half_even_ge: "of_int k \<le> y \<Longrightarrow> k \<le> round_half_even y"
proof -
  assume "of_int k \<le> y"
  then have "k \<le> \<lfloor>y\<rfloor>" by (simp add: le_floor_iff)
  moreover have "\<lfloor>y\<rfloor> \<le> round_half_even y" by (simp add: round_half_even_def Let_def)
  ultimately show ?thesis by linarith
qed

lemma ulp_pos: "0 < ulp x"
  by (simp add: ulp_def)

lemma round_to_double_ulp:
  "0 < x \<Longrightarrow> round_to_double x = of_int (round_half_even (x / ulp x)) * ulp x"
  by (simp add: round_to_double_def ulp_def Let_def)

lemma ulp_of_pos: "0 < x \<Longrightarrow> ulp x = 2 powi (max (binary_exponent x) (- 1022) - 52)"
  by (simp add: ulp_def)

lemma round_to_double_error:
  assumes "0 < x"
  shows "\<bar>round_to_double x - x\<bar> \<le> ulp x / 2"
proof -
  define u where "u = ulp x"
  define r where "r = real_of_int (round_half_even (x / u))"
  have u: "0 < u" by (simp add: u_def ulp_pos)
  have "\<bar>r - x / u\<bar> \<le> 1 / 2" unfolding r_def by (rule round_half_even_error)
  then have "\<bar>r - x / u\<bar> * u \<le> 1 / 2 * u" using u by (intro mult_right_mono) simp_all
  moreover have "\<bar>r - x / u\<bar> * u = \<bar>(r - x / u) * u\<bar>" using u by (simp add: abs_mult)
  moreover have "(r - x / u) * u = r * u - x" using u by (simp add: field_simps)
  ultimately have "\<bar>r * u - x\<bar> \<le> u / 2" by simp
  then show ?thesis using assms by (simp add: round_to_double_ulp r_def u_def)
qed

lemma power_int_pos_real: "0 < (2::real) powi k"
  by simp

lemma exponent_ge:
  assumes "0 < x" and "2 powi k \<le> x"
  shows "k \<le> binary_exponent x"
proof (rule ccontr)
  assume "\<not> k \<le> binary_exponent x"
  then have "binary_exponent x + 1 \<le> k" by simp
  then have "(2::real) powi (binary_exponent x + 1) \<le> 2 powi k"
    by (intro power_int_increasing) simp_all
  then show False using binary_exponent_bounds[OF assms(1)] assms(2) by linarith
qed

lemma exponent_less:
  assumes "0 < x" and "x < 2 powi k"
  shows "binary_exponent x < k"
proof (rule ccontr)
  assume "\<not> binary_exponent x < k"
  then have "k \<le> binary_exponent x" by simp
  then have "(2::real) powi k \<le> 2 powi binary_exponent x"
    by (intro power_int_increasing) simp_all
  then show False using binary_exponent_bounds[OF assms(1)] assms(2) by linarith
qed

lemma ulp_normal:
  assumes "0 < x" and "- 1022 \<le> binary_exponent x"
  shows "2 powi (binary_exponent x) = 2 ^ 52 * ulp x"
proof -
  have "ulp x = 2 powi (binary_exponent x - 52)" using assms by (simp add: ulp_of_pos max_def)
  also have "\<dots> = 2 powi (binary_exponent x) / 2 powi 52" by (rule power_int_diff) simp
  finally show ?thesis by simp
qed

lemma round_to_double_relative:
  assumes "2 powi (- 1022) \<le> x"
  shows "\<bar>round_to_double x - x\<bar> \<le> x / 2 ^ 53"
proof -
  have "0 < (2::real) powi (- 1022)" by (rule power_int_pos_real)
  then have x: "0 < x" using assms by linarith
  have e: "- 1022 \<le> binary_exponent x" using x assms by (rule exponent_ge)
  have "2 ^ 52 * ulp x \<le> x"
    using ulp_normal[OF x e] binary_exponent_bounds[OF x] by simp
  then have "ulp x / 2 \<le> x / 2 ^ 53" by simp
  then show ?thesis using round_to_double_error[OF x] by linarith
qed

lemma round_to_double_ge_power:
  assumes "- 1022 \<le> k" and "2 powi k \<le> x"
  shows "2 powi k \<le> round_to_double x"
proof -
  have "0 < (2::real) powi k" by (rule power_int_pos_real)
  then have x: "0 < x" using assms(2) by linarith
  define u where "u = ulp x"
  have u: "0 < u" by (simp add: u_def ulp_pos)
  have ke: "k \<le> binary_exponent x" using x assms(2) by (rule exponent_ge)
  then have e: "- 1022 \<le> binary_exponent x" using assms(1) by linarith
  have n: "2 powi (binary_exponent x) = 2 ^ 52 * u" unfolding u_def by (rule ulp_normal[OF x e])
  have "2 ^ 52 * u \<le> x" using n binary_exponent_bounds[OF x] by simp
  then have "2 ^ 52 \<le> x / u" using u by (simp add: field_simps)
  then have "real_of_int (2 ^ 52) \<le> x / u" by simp
  then have "2 ^ 52 \<le> round_half_even (x / u)" by (rule round_half_even_ge)
  then have "real_of_int (2 ^ 52) \<le> real_of_int (round_half_even (x / u))"
    using of_int_le_iff by blast
  then have "real_of_int (2 ^ 52) * u \<le> real_of_int (round_half_even (x / u)) * u"
    using u by (intro mult_right_mono) simp_all
  then have "2 powi (binary_exponent x) \<le> round_to_double x"
    using n x by (simp add: round_to_double_ulp u_def)
  moreover have "(2::real) powi k \<le> 2 powi (binary_exponent x)"
    using ke by (intro power_int_increasing) simp_all
  ultimately show ?thesis by linarith
qed

lemma round_to_double_exact:
  assumes "0 < x" and "x / ulp x = of_int n"
  shows "round_to_double x = x"
proof -
  have "round_to_double x = of_int (round_half_even (of_int n)) * ulp x"
    using assms by (simp add: round_to_double_ulp)
  also have "\<dots> = x / ulp x * ulp x" using assms(2) by simp
  also have "\<dots> = x" using ulp_pos[of x] by simp
  finally show ?thesis .
qed

lemma round_to_double_of_int:
  assumes "0 \<le> n" and "n < 2 ^ 53"
  shows "round_to_double (of_int n) = of_int n"
proof (cases "n = 0")
  case True
  then show ?thesis by (simp add: round_to_double_def)
next
  case False
  let ?x = "real_of_int n"
  let ?e = "binary_exponent ?x"
  have x: "0 < ?x" using False assms(1) by simp
  have "(2::real) powi 0 \<le> ?x" using False assms(1) by simp
  then have e0: "0 \<le> ?e" using x by (intro exponent_ge)
  have "?x < real_of_int (2 ^ 53)" using assms(2) of_int_less_iff by blast
  then have "?x < 2 powi 53" by simp
  then have e52: "?e < 53" using x by (intro exponent_less)
  define m where "m = nat (52 - ?e)"
  have em: "?e - 52 = - int m" using e52 by (simp add: m_def)
  have "ulp ?x = 2 powi (?e - 52)" using e0 x by (simp add: ulp_of_pos max_def)
  also have "\<dots> = 1 / 2 ^ m" unfolding em by (simp add: power_int_minus field_simps)
  finally have "?x / ulp ?x = of_int (n * 2 ^ m)" by simp
  with x show ?thesis by (rule round_to_double_exact)
qed

subsection \<open>The quotient of the pacing block\<close>

lemma pace_capped:
  assumes "0 < t_prev" and "t_prev < t" and "0 < m"
  shows "pace scaled m t_prev t =
           (if min (scaled (t - t_prev) m) 1000000000 \<le> 1000 then []
            else [nsleep (min (scaled (t - t_prev) m) 1000000000)])"
  using assms by (auto simp: pace_def Let_def min_def not_le not_less)

lemma double_quotient_beyond:
  assumes "0 < m" and "uint d < 2 ^ 53" and "2 ^ 64 \<le> real_of_int (uint d) / m"
  shows "double_quotient beyond d m = beyond"
proof -
  have r: "round_to_double (real_of_int (uint d)) = real_of_int (uint d)"
    using assms(2) by (intro round_to_double_of_int) simp_all
  have "(2::real) powi 64 \<le> real_of_int (uint d) / m" using assms(3) by simp
  then have "(2::real) powi 64 \<le> round_to_double (real_of_int (uint d) / m)"
    by (intro round_to_double_ge_power) simp_all
  then have "round_to_double (real_of_int (uint d) / m) \<le> - 1 \<or>
      2 ^ 64 \<le> round_to_double (real_of_int (uint d) / m)" by simp
  then show ?thesis unfolding double_quotient_def Let_def r by (simp only: if_True)
qed

lemma double_quotient_one:
  assumes "uint d < 2 ^ 53"
  shows "double_quotient beyond d 1 = d"
proof -
  have r: "round_to_double (real_of_int (uint d)) = real_of_int (uint d)"
    using assms by (intro round_to_double_of_int) simp_all
  have q: "round_to_double (round_to_double (real_of_int (uint d)) / 1) = real_of_int (uint d)"
    by (simp only: r div_by_1)
  have "uint d < 2 ^ 64" using assms by simp
  then have "real_of_int (uint d) < real_of_int (2 ^ 64)" using of_int_less_iff by blast
  then have lt: "real_of_int (uint d) < 2 ^ 64" by simp
  have "0 \<le> uint d" by simp
  then have ge: "0 \<le> real_of_int (uint d)" by (simp only: of_int_0_le_iff)
  have c1: "\<not> (real_of_int (uint d) \<le> - 1 \<or> 2 ^ 64 \<le> real_of_int (uint d))"
    using lt ge by linarith
  have c2: "\<not> real_of_int (uint d) < 0" using ge by linarith
  have fl: "\<lfloor>real_of_int (uint d)\<rfloor> = uint d" by (rule floor_of_int)
  have w: "word_of_int (uint d) = d" by simp
  show ?thesis unfolding double_quotient_def Let_def q using c1 c2 by (simp only: if_False fl w)
qed

lemma double_quotient_in_range:
  assumes "0 < m" and "uint d < 2 ^ 53"
    and "2 powi (- 1022) \<le> real_of_int (uint d) / m" and "real_of_int (uint d) / m < 2 ^ 63"
  shows "double_quotient beyond d m = word_of_int \<lfloor>round_to_double (real_of_int (uint d) / m)\<rfloor> \<and>
         \<bar>round_to_double (real_of_int (uint d) / m) - real_of_int (uint d) / m\<bar>
           \<le> real_of_int (uint d) / m / 2 ^ 53"
proof -
  let ?q = "real_of_int (uint d) / m"
  have r: "round_to_double (real_of_int (uint d)) = real_of_int (uint d)"
    using assms(2) by (intro round_to_double_of_int) simp_all
  have e: "\<bar>round_to_double ?q - ?q\<bar> \<le> ?q / 2 ^ 53"
    using assms(3) by (rule round_to_double_relative)
  have "?q / 2 ^ 53 \<le> ?q" using assms(3) by (simp add: field_simps)
  then have "round_to_double ?q \<le> 2 * ?q" using e by linarith
  moreover have "2 * ?q < 2 * 2 ^ 63" using assms(4) by linarith
  ultimately have lt: "round_to_double ?q < 2 ^ 64" by simp
  have "0 \<le> uint d" by simp
  then have "0 \<le> real_of_int (uint d)" by (simp only: of_int_0_le_iff)
  then have "0 \<le> ?q" using assms(1) by (intro divide_nonneg_pos)
  then have ge: "0 \<le> round_to_double ?q" using e \<open>?q / 2 ^ 53 \<le> ?q\<close> by linarith
  have c1: "\<not> (round_to_double ?q \<le> - 1 \<or> 2 ^ 64 \<le> round_to_double ?q)"
    using lt ge by linarith
  have c2: "\<not> round_to_double ?q < 0" using ge by linarith
  have "double_quotient beyond d m = word_of_int \<lfloor>round_to_double ?q\<rfloor>"
    unfolding double_quotient_def Let_def r using c1 c2 by (simp only: if_False)
  then show ?thesis using e by blast
qed

lemma pace_at_most_one_second:
  "length (pace scaled m t_prev t) \<le> 1 \<and>
   sum_list (map slept_ns (pace scaled m t_prev t)) \<le> 1000000000"
proof (cases "0 < t_prev \<and> t_prev < t \<and> 0 < m")
  case True
  let ?d = "min (scaled (t - t_prev) m) 1000000000"
  have p: "pace scaled m t_prev t = (if ?d \<le> 1000 then [] else [nsleep ?d])"
    using True by (intro pace_capped) simp_all
  have "unat ?d \<le> unat (1000000000 :: u64)"
    by (intro word_le_nat_alt[THEN iffD1]) simp
  then show ?thesis unfolding p by (simp add: slept_nsleep)
next
  case False
  then show ?thesis by (auto simp: pace_def)
qed

lemma unscaled_is_quotient:
  "uint d < 2 ^ 53 \<Longrightarrow> double_quotient beyond d 1 = unscaled d 1"
  by (simp add: double_quotient_one unscaled_def)

lemma pace_beyond:
  assumes "0 < t_prev" and "t_prev < t" and "0 < m" and "uint (t - t_prev) < 2 ^ 53"
    and "2 ^ 64 \<le> real_of_int (uint (t - t_prev)) / m"
  shows "pace (double_quotient beyond) m t_prev t =
           (if min beyond 1000000000 \<le> 1000 then [] else [nsleep (min beyond 1000000000)])"
  using pace_capped[OF assms(1,2,3), of "double_quotient beyond"]
    double_quotient_beyond[OF assms(3,4,5), of beyond] by simp

text \<open>
  Rounding is seen with the multiplier \<open>0.1\<close>, the \<open>double\<close>
  \<open>3602879701896397 / 2^55\<close>: 2000 ns divided by it is a little less than 20000, and
  the division returns 20000.
\<close>

lemma tenth_rounds_up:
  "double_quotient beyond 2000 (3602879701896397 / 2 ^ 55) = 20000 \<and>
   \<lfloor>(2000::real) / (3602879701896397 / 2 ^ 55)\<rfloor> = 19999"
proof -
  let ?q = "(2000::real) / (3602879701896397 / 2 ^ 55)"
  have r: "round_to_double (real_of_int (uint (2000::u64))) = real_of_int (uint (2000::u64))"
    by (intro round_to_double_of_int) simp_all
  have u: "real_of_int (uint (2000::u64)) = 2000" by simp
  have q: "0 < ?q" by simp
  have e: "binary_exponent ?q = 14"
    by (rule binary_exponent_eq) simp_all
  have "ulp ?q = 2 powi (max (binary_exponent ?q) (- 1022) - 52)"
    using q by (rule ulp_of_pos)
  also have "\<dots> = 2 powi (- 38)" unfolding e by simp
  also have "\<dots> = 1 / 2 ^ 38" by (simp add: power_int_minus field_simps)
  finally have ulp: "ulp ?q = 1 / 2 ^ 38" .
  have rh: "round_half_even (?q / (1 / 2 ^ 38)) = 5497558138880000"
    by (simp add: round_half_even_def Let_def)
  have "round_to_double ?q = of_int (round_half_even (?q / ulp ?q)) * ulp ?q"
    using q by (rule round_to_double_ulp)
  also have "\<dots> = 20000" unfolding ulp rh by simp
  finally have rd: "round_to_double ?q = 20000" .
  have a: "double_quotient beyond 2000 (3602879701896397 / 2 ^ 55) = 20000"
    unfolding double_quotient_def Let_def u r[unfolded u] rd by simp
  have b: "\<lfloor>?q\<rfloor> = 19999" by simp
  show ?thesis using a b by simp
qed

text \<open>
  Claim C9 says that for consecutive framed records with timestamps \<open>t_prev\<close> and \<open>t\<close>,
  \<open>t > t_prev > 0\<close>, and a multiplier \<open>m > 0\<close> the pacer sleeps once, for
  \<open>min((t - t_prev) / m, 1 s)\<close>, and not at all when that is at most 1000 ns. The program
  does so while the quotient is below \<open>2^64\<close>. With the multiplier \<open>0.000001\<close>, which is
  the \<open>double\<close> \<open>4722366482869645 / 2^72\<close>, and records stamped 04:00:00 and 09:30:00
  the quotient is \<open>1.98e19\<close>, beyond \<open>uint64_t\<close>: the conversion yields 0 and the pacer
  does not sleep at all, where the claim has a sleep of one second. So it is with the
  multiplier \<open>2^-20\<close>, for which the division is exact. With the multiplier 1 the same
  records give one sleep of one second, records 50 ms apart one sleep of 50 ms, and
  records 1000 ns apart none.
\<close>

theorem pacer_overflow_skips_sleep:
  "pace (double_quotient 0) (4722366482869645 / 2 ^ 72) 14400000000000 34200000000000 = [] \<and>
   pace (double_quotient 0) (1 / 2 ^ 20) 14400000000000 34200000000000 = [] \<and>
   (1000000000::real) < real_of_int (uint (34200000000000 - 14400000000000 :: u64))
                          / (4722366482869645 / 2 ^ 72) \<and>
   pace (double_quotient 0) 1 14400000000000 34200000000000 = [Nanosleep 1 0] \<and>
   pace (double_quotient 0) 1 34200000000000 34200050000000 = [Nanosleep 0 50000000] \<and>
   pace (double_quotient 0) 1 34200000000000 34200000001000 = []"
proof -
  have d: "(34200000000000 - 14400000000000 :: u64) = 19800000000000"
    "(34200050000000 - 34200000000000 :: u64) = 50000000"
    "(34200000001000 - 34200000000000 :: u64) = 1000"
    by simp_all
  have a: "double_quotient 0 19800000000000 (4722366482869645 / 2 ^ 72) = 0"
    by (rule double_quotient_beyond) simp_all
  have b: "double_quotient 0 19800000000000 (1 / 2 ^ 20) = 0"
    by (rule double_quotient_beyond) simp_all
  have c: "double_quotient 0 19800000000000 1 = 19800000000000"
    by (rule double_quotient_one) simp
  have e: "double_quotient 0 50000000 1 = 50000000"
    by (rule double_quotient_one) simp
  have f: "double_quotient 0 1000 1 = 1000"
    by (rule double_quotient_one) simp
  have "pace (double_quotient 0) (4722366482869645 / 2 ^ 72) 14400000000000 34200000000000
      = (if min (double_quotient 0 (34200000000000 - 14400000000000) (4722366482869645 / 2 ^ 72))
               1000000000 \<le> 1000 then []
         else [nsleep (min (double_quotient 0 (34200000000000 - 14400000000000)
                              (4722366482869645 / 2 ^ 72)) 1000000000)])"
    by (rule pace_capped) simp_all
  then have 1: "pace (double_quotient 0) (4722366482869645 / 2 ^ 72) 14400000000000 34200000000000 = []"
    unfolding d a by simp
  have "pace (double_quotient 0) (1 / 2 ^ 20) 14400000000000 34200000000000
      = (if min (double_quotient 0 (34200000000000 - 14400000000000) (1 / 2 ^ 20))
               1000000000 \<le> 1000 then []
         else [nsleep (min (double_quotient 0 (34200000000000 - 14400000000000)
                              (1 / 2 ^ 20)) 1000000000)])"
    by (rule pace_capped) simp_all
  then have 2: "pace (double_quotient 0) (1 / 2 ^ 20) 14400000000000 34200000000000 = []"
    unfolding d b by simp
  have 3: "(1000000000::real) < real_of_int (uint (34200000000000 - 14400000000000 :: u64))
                          / (4722366482869645 / 2 ^ 72)"
    unfolding d by simp
  have "pace (double_quotient 0) 1 14400000000000 34200000000000
      = (if min (double_quotient 0 (34200000000000 - 14400000000000) 1) 1000000000 \<le> 1000 then []
         else [nsleep (min (double_quotient 0 (34200000000000 - 14400000000000) 1) 1000000000)])"
    by (rule pace_capped) simp_all
  then have 4: "pace (double_quotient 0) 1 14400000000000 34200000000000 = [Nanosleep 1 0]"
    unfolding d c by (simp add: nsleep_def)
  have "pace (double_quotient 0) 1 34200000000000 34200050000000
      = (if min (double_quotient 0 (34200050000000 - 34200000000000) 1) 1000000000 \<le> 1000 then []
         else [nsleep (min (double_quotient 0 (34200050000000 - 34200000000000) 1) 1000000000)])"
    by (rule pace_capped) simp_all
  then have 5: "pace (double_quotient 0) 1 34200000000000 34200050000000 = [Nanosleep 0 50000000]"
    unfolding d e by (simp add: nsleep_def)
  have "pace (double_quotient 0) 1 34200000000000 34200000001000
      = (if min (double_quotient 0 (34200000001000 - 34200000000000) 1) 1000000000 \<le> 1000 then []
         else [nsleep (min (double_quotient 0 (34200000001000 - 34200000000000) 1) 1000000000)])"
    by (rule pace_capped) simp_all
  then have 6: "pace (double_quotient 0) 1 34200000000000 34200000001000 = []"
    unfolding d f by simp
  show ?thesis using 1 2 3 4 5 6 by (intro conjI)
qed

section \<open>The dispatcher\<close>

lemmas decoder_defs =
  parse_S_def parse_R_def parse_H_def parse_A_def parse_F_def parse_E_def parse_C_def
  parse_X_def parse_D_def parse_U_def parse_P_def parse_Q_def parse_B_def

lemma unknown_message_not_decoded:
  "unknown_message t \<notin> set (parse_S msg len)" "unknown_message t \<notin> set (parse_R msg len)"
  "unknown_message t \<notin> set (parse_H msg len)" "unknown_message t \<notin> set (parse_A msg len)"
  "unknown_message t \<notin> set (parse_F msg len)" "unknown_message t \<notin> set (parse_E msg len)"
  "unknown_message t \<notin> set (parse_C msg len)" "unknown_message t \<notin> set (parse_X msg len)"
  "unknown_message t \<notin> set (parse_D msg len)" "unknown_message t \<notin> set (parse_U msg len)"
  "unknown_message t \<notin> set (parse_P msg len)" "unknown_message t \<notin> set (parse_Q msg len)"
  "unknown_message t \<notin> set (parse_B msg len)"
  by (simp_all add: decoder_defs unknown_message_def Let_def)

lemma unknown_message_not_blank: "unknown_message t \<noteq> Line [] []"
  by (simp add: unknown_message_def)

text \<open>
  Claim C10. \<open>parse_itch_message\<close> has dedicated decoders for the 13 types S, R, H, A,
  F, E, C, X, D, U, P, Q, B and for no other: for each of these types the output is that
  of the type's own decoder followed by the empty line, the decoder prints its own title
  first as soon as \<open>len\<close> reaches the length of the type in the table, and prints
  nothing below that length. A message of any other type gets the unknown-message line,
  and so do the seven other types of the table (Y, L, V, W, K, I, N), for which
  \<open>get_itch_message_length\<close> is not zero.
\<close>

theorem dispatcher_decodes_thirteen_types:
  assumes "0 < len"
  shows "(\<forall>(c, n, title, decode) \<in> set decoders.
            parse_itch_message (of_char c # rest) len
              = decode (of_char c # rest) len @ [Line [] []] \<and>
            n = get_itch_message_length (of_char c) \<and>
            (n \<le> len \<longrightarrow> hd (decode (of_char c # rest) len) = Line title [] \<and>
                        2 \<le> length (decode (of_char c # rest) len)) \<and>
            (len < n \<longrightarrow> decode (of_char c # rest) len = [])) \<and>
         map (\<lambda>(c, n, title, decode). of_char c) decoders = decoded_types \<and>
         (unknown_message t \<in> set (parse_itch_message (t # rest) len)
            \<longleftrightarrow> t \<notin> set decoded_types) \<and>
         (t \<in> set undecoded_types \<longrightarrow>
            parse_itch_message (t # rest) len = [unknown_message t, Line [] []] \<and>
            0 < get_itch_message_length t) \<and>
         (t \<in> set decoded_types \<longrightarrow> 0 < get_itch_message_length t)"
proof -
  have d1: "\<forall>(c, n, title, decode) \<in> set decoders.
            parse_itch_message (of_char c # rest) len
              = decode (of_char c # rest) len @ [Line [] []]"
    using assms by (simp add: decoders_def parse_itch_message_def)
  have d2: "\<forall>(c, n, title, decode) \<in> set decoders.
            (n \<le> len \<longrightarrow> hd (decode (of_char c # rest) len) = Line title [] \<and>
                        2 \<le> length (decode (of_char c # rest) len)) \<and>
            (len < n \<longrightarrow> decode (of_char c # rest) len = [])"
    by (simp add: decoders_def decoder_defs Let_def)
  have d3: "\<forall>(c, n, title, decode) \<in> set decoders. n = get_itch_message_length (of_char c)"
    by (simp add: decoders_def get_itch_message_length_def message_length_by_type_def)
  have d: "\<forall>(c, n, title, decode) \<in> set decoders.
            parse_itch_message (of_char c # rest) len
              = decode (of_char c # rest) len @ [Line [] []] \<and>
            n = get_itch_message_length (of_char c) \<and>
            (n \<le> len \<longrightarrow> hd (decode (of_char c # rest) len) = Line title [] \<and>
                        2 \<le> length (decode (of_char c # rest) len)) \<and>
            (len < n \<longrightarrow> decode (of_char c # rest) len = [])"
    using d1 d2 d3 by fast
  have e: "map (\<lambda>(c, n, title, decode). of_char c) decoders = decoded_types"
    by (simp add: decoders_def decoded_types_def)
  have a: "unknown_message t \<in> set (parse_itch_message (t # rest) len)
            \<longleftrightarrow> t \<notin> set decoded_types"
    using assms
    by (simp add: parse_itch_message_def decoded_types_def unknown_message_not_decoded
        unknown_message_not_blank Let_def)
  have b: "t \<in> set undecoded_types \<longrightarrow>
            parse_itch_message (t # rest) len = [unknown_message t, Line [] []] \<and>
            0 < get_itch_message_length t"
    using assms
    by (auto simp: parse_itch_message_def undecoded_types_def get_itch_message_length_def
        message_length_by_type_def)
  have c: "t \<in> set decoded_types \<longrightarrow> 0 < get_itch_message_length t"
    by (auto simp: decoded_types_def get_itch_message_length_def message_length_by_type_def)
  show ?thesis using d e a b c by (intro conjI)
qed

text \<open>
  A System Event message of 12 bytes is printed by \<open>parse_S\<close>: title, timestamp, event
  code and the empty line; a message of type Y gets the unknown-message line.
\<close>

theorem dispatcher_decodes_thirteen_types_witness:
  "(0::nat) < 12 \<and>
   parse_itch_message (of_char CHR ''S'' # tl system_event) 12
     = parse_S (of_char CHR ''S'' # tl system_event) 12 @ [Line [] []] \<and>
   hd (parse_S (of_char CHR ''S'' # tl system_event) 12) = Line ''[S] System Event'' [] \<and>
   parse_S (of_char CHR ''S'' # tl system_event) 12 ! 2
     = Line ''  Event Code: '' [Ch (of_char CHR ''O'')] \<and>
   parse_S (of_char CHR ''S'' # tl system_event) 11 = [] \<and>
   parse_itch_message (of_char CHR ''Y'' # tl system_event) 12
     = [unknown_message (of_char CHR ''Y''), Line [] []] \<and>
   get_itch_message_length (of_char CHR ''Y'') = 20"
  using dispatcher_decodes_thirteen_types[of 12 "tl system_event" "of_char CHR ''Y''"]
    dispatcher_decodes_thirteen_types[of 11 "tl system_event" "of_char CHR ''Y''"]
  by (simp add: decoders_def undecoded_types_def get_itch_message_length_def
      message_length_by_type_def system_event_def parse_S_def Let_def)

section \<open>The broadcaster\<close>

lemma sends_append [simp]: "sends (xs @ ys) = sends xs @ sends ys"
  by (induction xs rule: sends.induct) simp_all

lemma closes_append [simp]: "closes i (xs @ ys) = closes i xs @ closes i ys"
  by (induction i xs rule: closes.induct) simp_all

lemma broadcast_slot_eq:
  assumes "i < length cs"
  shows "broadcast_slot send msg i (cs, ev) =
           (cs[i := slot_after send msg (cs ! i)], ev @ slot_events send msg i (cs ! i))"
proof (cases "send (socket_fd (cs ! i)) msg")
  case (Sent n)
  then show ?thesis
    by (simp add: broadcast_slot_def slot_after_def slot_events_def Let_def)
next
  case (Send_failed errno)
  then show ?thesis
    by (simp add: broadcast_slot_def slot_after_def slot_events_def Let_def)
qed

lemma broadcast_fold:
  "n \<le> length cs \<Longrightarrow>
     fold (broadcast_slot send msg) [0..<n] (cs, ev) =
       (map (slot_after send msg) (take n cs) @ drop n cs,
        ev @ concat (map (\<lambda>j. slot_events send msg j (cs ! j)) [0..<n]))"
proof (induction n)
  case 0
  then show ?case by simp
next
  case (Suc n)
  let ?L = "map (slot_after send msg) (take n cs) @ drop n cs"
  have n: "n < length cs" using Suc.prems by simp
  have len: "length (map (slot_after send msg) (take n cs)) = n" using n by simp
  have nth: "?L ! n = cs ! n"
    using n by (simp add: nth_append)
  have dr: "drop n cs = cs ! n # drop (Suc n) cs"
    using n by (simp add: Cons_nth_drop_Suc)
  have upd: "?L[n := slot_after send msg (cs ! n)] =
      map (slot_after send msg) (take (Suc n) cs) @ drop (Suc n) cs"
    using n len by (subst dr) (simp add: list_update_append take_Suc_conv_app_nth)
  have "n < length ?L" using n by simp
  then show ?case
    using Suc.IH n by (simp add: broadcast_slot_eq nth upd)
qed

lemma sends_slot_events:
  "sends (slot_events send msg j c) = (if active c then [(j, socket_fd c, msg)] else [])"
  by (cases "send (socket_fd c) msg") (simp_all add: slot_events_def)

lemma closes_slot_events:
  "closes i (slot_events send msg j c) =
     (if i = j \<and> active c \<and> disconnected (send (socket_fd c) msg) then [socket_fd c] else [])"
  by (cases "send (socket_fd c) msg") (simp_all add: slot_events_def)

lemma sends_all_slots:
  "sends (concat (map (\<lambda>j. slot_events send msg j (cs ! j)) [0..<n])) =
     map (\<lambda>j. (j, socket_fd (cs ! j), msg)) (filter (\<lambda>j. active (cs ! j)) [0..<n])"
  by (induction n) (simp_all add: sends_slot_events)

lemma closes_all_slots:
  "closes i (concat (map (\<lambda>j. slot_events send msg j (cs ! j)) [0..<n])) =
     (if i < n \<and> active (cs ! i) \<and> disconnected (send (socket_fd (cs ! i)) msg)
      then [socket_fd (cs ! i)] else [])"
  by (induction n) (auto simp add: closes_slot_events less_Suc_eq)

lemma perrors_append [simp]: "perrors (xs @ ys) = perrors xs + perrors ys"
  by (induction xs rule: perrors.induct) simp_all

lemma disconnect_notices_append [simp]:
  "disconnect_notices (xs @ ys) = disconnect_notices xs @ disconnect_notices ys"
  by (induction xs rule: disconnect_notices.induct) simp_all

lemma perrors_slot_events:
  "perrors (slot_events send msg j c) =
     (if active c \<and> other_failure (send (socket_fd c) msg) then 1 else 0)"
  by (cases "send (socket_fd c) msg") (simp_all add: slot_events_def)

lemma notices_slot_events:
  "disconnect_notices (slot_events send msg j c) =
     (if active c \<and> disconnected (send (socket_fd c) msg) then [j] else [])"
  by (cases "send (socket_fd c) msg") (simp_all add: slot_events_def)

lemma perrors_all_slots:
  "perrors (concat (map (\<lambda>j. slot_events send msg j (cs ! j)) [0..<n])) =
     length (filter (\<lambda>j. active (cs ! j) \<and> other_failure (send (socket_fd (cs ! j)) msg)) [0..<n])"
  by (induction n) (simp_all add: perrors_slot_events)

lemma notices_all_slots:
  "disconnect_notices (concat (map (\<lambda>j. slot_events send msg j (cs ! j)) [0..<n])) =
     filter (\<lambda>j. active (cs ! j) \<and> disconnected (send (socket_fd (cs ! j)) msg)) [0..<n]"
  by (induction n) (simp_all add: notices_slot_events)

lemma broadcast_message_eq:
  assumes "length clients = MAX_CLIENTS"
  shows "broadcast_message send clients msg len =
     (map (slot_after send (take len msg)) clients,
      concat (map (\<lambda>j. slot_events send (take len msg) j (clients ! j)) [0..<MAX_CLIENTS]),
      len)"
  using broadcast_fold[of MAX_CLIENTS clients send "take len msg" "[]"] assms
  by (simp add: broadcast_message_def Let_def)

text \<open>
  Claim C7, as amended. \<open>broadcast_message\<close> sends the byte slice to every active
  subscriber, in slot order, and returns after all of them have been tried. A
  subscriber whose write fails with a disconnect-class error (\<open>EPIPE\<close>, \<open>ECONNRESET\<close>) is
  reported as disconnected, marked inactive, and its socket is closed exactly once.
  Any other write error is logged with \<open>perror("send")\<close>, once for each failed write, and
  the slot is left as it was, active, its socket not closed; so is the slot of a
  successful write, with nothing logged.
\<close>

theorem broadcast_retires_on_disconnect_only:
  assumes "length clients = MAX_CLIENTS" and "i < MAX_CLIENTS"
  shows "snd (snd (broadcast_message send clients msg len)) = len \<and>
         sends (fst (snd (broadcast_message send clients msg len))) =
           map (\<lambda>j. (j, socket_fd (clients ! j), take len msg))
               (filter (\<lambda>j. active (clients ! j)) [0..<MAX_CLIENTS]) \<and>
         fst (broadcast_message send clients msg len) ! i =
           (if active (clients ! i) \<and> disconnected (send (socket_fd (clients ! i)) (take len msg))
            then (clients ! i)\<lparr>active := False\<rparr> else clients ! i) \<and>
         closes i (fst (snd (broadcast_message send clients msg len))) =
           (if active (clients ! i) \<and> disconnected (send (socket_fd (clients ! i)) (take len msg))
            then [socket_fd (clients ! i)] else []) \<and>
         fst (snd (broadcast_message send clients msg len)) =
           concat (map (\<lambda>j. slot_events send (take len msg) j (clients ! j)) [0..<MAX_CLIENTS]) \<and>
         perrors (fst (snd (broadcast_message send clients msg len))) =
           length (filter (\<lambda>j. active (clients ! j) \<and>
                     other_failure (send (socket_fd (clients ! j)) (take len msg)))
                   [0..<MAX_CLIENTS]) \<and>
         disconnect_notices (fst (snd (broadcast_message send clients msg len))) =
           filter (\<lambda>j. active (clients ! j) \<and>
                     disconnected (send (socket_fd (clients ! j)) (take len msg)))
                  [0..<MAX_CLIENTS] \<and>
         slot_events send (take len msg) i (clients ! i) =
           (if \<not> active (clients ! i) then []
            else Send_to i (socket_fd (clients ! i)) (take len msg) #
              (case send (socket_fd (clients ! i)) (take len msg) of
                 Sent n \<Rightarrow> []
               | Send_failed errno \<Rightarrow>
                   if errno = EPIPE \<or> errno = ECONNRESET
                   then [Client_disconnected i, Close i (socket_fd (clients ! i))]
                   else [Perror_send]))"
proof -
  let ?m = "take len msg"
  have e: "broadcast_message send clients msg len =
     (map (slot_after send ?m) clients,
      concat (map (\<lambda>j. slot_events send ?m j (clients ! j)) [0..<MAX_CLIENTS]),
      len)"
    using assms(1) by (rule broadcast_message_eq)
  have slot: "map (slot_after send ?m) clients ! i = slot_after send ?m (clients ! i)"
    using assms by simp
  have ev: "slot_events send ?m i (clients ! i) =
           (if \<not> active (clients ! i) then []
            else Send_to i (socket_fd (clients ! i)) ?m #
              (case send (socket_fd (clients ! i)) ?m of
                 Sent n \<Rightarrow> []
               | Send_failed errno \<Rightarrow>
                   if errno = EPIPE \<or> errno = ECONNRESET
                   then [Client_disconnected i, Close i (socket_fd (clients ! i))]
                   else [Perror_send]))"
    by (cases "send (socket_fd (clients ! i)) ?m") (simp_all add: slot_events_def)
  show ?thesis
    unfolding e using assms(2) slot ev
    by (simp add: sends_all_slots closes_all_slots perrors_all_slots notices_all_slots
        slot_after_def)
qed

lemma one_subscriber_facts:
  "length one_subscriber = MAX_CLIENTS" "(0::nat) < MAX_CLIENTS"
  "one_subscriber ! 0 = \<lparr>socket_fd = 7, address = (0, 0), active = True\<rparr>"
  by (simp_all add: one_subscriber_def MAX_CLIENTS_def)

lemma one_subscriber_log:
  "concat (map (\<lambda>j. slot_events send msg j (one_subscriber ! j)) [0..<MAX_CLIENTS])
     = slot_events send msg 0 (one_subscriber ! 0)"
proof -
  have "[0..<MAX_CLIENTS] = 0 # map Suc [0..<31]"
    by (simp add: MAX_CLIENTS_def upt_conv_Cons map_Suc_upt del: upt_Suc)
  moreover have "concat (map (\<lambda>j. slot_events send msg (Suc j) (one_subscriber ! Suc j)) [0..<31]) = []"
    by (auto simp: one_subscriber_def slot_events_def)
  ultimately show ?thesis by (simp add: comp_def)
qed

theorem broadcast_retires_on_disconnect_only_witness:
  "length one_subscriber = MAX_CLIENTS \<and> (0::nat) < MAX_CLIENTS \<and>
   \<not> active (fst (broadcast_message (send_fails EPIPE) one_subscriber system_event 12) ! 0) \<and>
   closes 0 (fst (snd (broadcast_message (send_fails EPIPE) one_subscriber system_event 12))) = [7] \<and>
   fst (snd (broadcast_message (send_fails EPIPE) one_subscriber system_event 12))
     = [Send_to 0 7 system_event, Client_disconnected 0, Close 0 7]"
  using broadcast_retires_on_disconnect_only[OF one_subscriber_facts(1,2),
      of "send_fails EPIPE" system_event 12]
    one_subscriber_facts
  apply (simp only: one_subscriber_log)
  apply (simp add: send_fails_def slot_events_def system_event_def)
  done

text \<open>
  Claim C7 as stated fails for the other errors: a subscriber whose write fails with
  errno 11 (\<open>EAGAIN\<close>) is still active after the broadcast and nothing was closed; the
  failure was logged.
\<close>

theorem other_write_error_counterexample:
  "(11::int) \<noteq> EPIPE \<and> (11::int) \<noteq> ECONNRESET \<and>
   active (one_subscriber ! 0) \<and>
   send_fails 11 (socket_fd (one_subscriber ! 0)) (take 12 system_event) = Send_failed 11 \<and>
   active (fst (broadcast_message (send_fails 11) one_subscriber system_event 12) ! 0) \<and>
   closes 0 (fst (snd (broadcast_message (send_fails 11) one_subscriber system_event 12))) = [] \<and>
   fst (snd (broadcast_message (send_fails 11) one_subscriber system_event 12))
     = [Send_to 0 7 system_event, Perror_send]"
  using broadcast_message_eq[OF one_subscriber_facts(1), of "send_fails 11" system_event 12]
    one_subscriber_facts
  apply (simp only: one_subscriber_log)
  apply (simp add: closes_slot_events slot_after_def send_fails_def EPIPE_def ECONNRESET_def
      slot_events_def system_event_def)
  done
section \<open>Start-up with a speed multiplier\<close>

lemma sleeps_append [simp]: "sleeps (xs @ ys) = sleeps xs @ sleeps ys"
  by (simp add: sleeps_def)

lemma pace_nonpositive: "m \<le> 0 \<Longrightarrow> pace scaled m p c = []"
  by (simp add: pace_def)

lemma refill_out:
  "\<exists>new. out (snd (refill s)) = out s @ new \<and> sleeps new = []"
  by (auto simp: refill_def sleeps_def split: prod.splits rd.splits)

lemma wait_complete_out:
  "\<exists>new. out (snd (wait_complete L s)) = out s @ new \<and> sleeps new = []"
  by (auto simp: wait_complete_def sleeps_def split: prod.splits rd.splits)

lemma emit_out:
  "\<exists>new. out (emit scaled m L s) = out s @ new \<and> (m \<le> 0 \<longrightarrow> sleeps new = [])"
  by (auto simp: emit_def Let_def sleeps_def pace_nonpositive)

lemma replay_step_out:
  "\<exists>new. out (snd (replay_step scaled m s)) = out s @ new \<and> (m \<le> 0 \<longrightarrow> sleeps new = [])"
proof -
  obtain f s1 where r: "refill s = (f, s1)" by (cases "refill s")
  obtain n1 where n1: "out s1 = out s @ n1" "sleeps n1 = []"
    using refill_out[of s] r by auto
  show ?thesis
  proof (cases f)
    case Break
    then show ?thesis using r n1 by (simp add: replay_step_def)
  next
    case Next
    show ?thesis
    proof (cases "buf s1")
      case Nil
      then show ?thesis using r Next n1 by (simp add: replay_step_def)
    next
      case (Cons t rest)
      show ?thesis
      proof (cases "get_message_length t = 0")
        case True
        then show ?thesis using r Next Cons n1 by (simp add: replay_step_def sleeps_def)
      next
        case False
        obtain f2 s2 where w: "wait_complete (get_message_length t) s1 = (f2, s2)"
          by (cases "wait_complete (get_message_length t) s1")
        obtain n2 where n2: "out s2 = out s1 @ n2" "sleeps n2 = []"
          using wait_complete_out[of "get_message_length t" s1] w by auto
        obtain n3 where n3: "out (emit scaled m (get_message_length t) s2) = out s2 @ n3"
          "m \<le> 0 \<longrightarrow> sleeps n3 = []"
          using emit_out[of scaled m "get_message_length t" s2] by auto
        show ?thesis
        proof (cases f2)
          case Break
          then show ?thesis using r Next Cons False w n1 n2 by (simp add: replay_step_def)
        next
          case n: Next
          have "replay_step scaled m s = (Next, emit scaled m (get_message_length t) s2)"
            using r Next Cons False w n by (simp add: replay_step_def)
          then show ?thesis using n1 n2 n3 by simp
        qed
      qed
    qed
  qed
qed

lemma replay_loop_out:
  "\<exists>new. out (replay_loop scaled m s) = out s @ new \<and> (m \<le> 0 \<longrightarrow> sleeps new = [])"
proof (induction scaled m s rule: replay_loop.induct)
  case (1 scaled m s)
  obtain n1 where n1: "out (snd (replay_step scaled m s)) = out s @ n1"
    "m \<le> 0 \<longrightarrow> sleeps n1 = []"
    using replay_step_out[of scaled m s] by auto
  show ?case
  proof (cases "fst (replay_step scaled m s) = Next")
    case True
    obtain n2 where "out (replay_loop scaled m (snd (replay_step scaled m s))) =
        out (snd (replay_step scaled m s)) @ n2" "m \<le> 0 \<longrightarrow> sleeps n2 = []"
      using "1.IH"[OF True] by auto
    then show ?thesis using True n1 by (subst replay_loop.simps) simp
  next
    case False
    then show ?thesis using n1 by (subst replay_loop.simps) simp
  qed
qed

lemma replay_itch_file_unpaced:
  "hd (snd (replay_itch_file scaled (Some xs) m)) = Starting m \<and>
   (m \<le> 0 \<longrightarrow> sleeps (snd (replay_itch_file scaled (Some xs) m)) = [])"
proof -
  obtain new where "out (replay_loop scaled m (initial_state xs m)) = [Starting m] @ new"
    "m \<le> 0 \<longrightarrow> sleeps new = []"
    using replay_loop_out[of scaled m "initial_state xs m"] by (auto simp: initial_state_def)
  then show ?thesis by (simp add: replay_itch_file_def Let_def sleeps_def)
qed

text \<open>
  Claim C8, as amended. A speed multiplier on the command line is not checked: when the
  start-up calls succeed, \<open>main\<close> starts the replay with \<open>atof(argv[3])\<close> whatever its
  sign, and does not end with the exit code 1 of an argument error; it waits for the
  accept thread after the replay and returns 0 when that thread has ended. With a
  multiplier that is not positive the replay never sleeps: the messages go out as fast
  as they are framed.
\<close>

theorem nonpositive_speed_replays_unpaced:
  assumes "4 \<le> length argv" and "socket_ok env" and "setsockopt_ok env" and "bind_ok env"
    and "listen_ok env" and "fopen_result env = Some xs"
  shows "server_main atoi atof scaled env argv =
           (if accept_returns env then Exit 0 else Joining,
            Some (snd (replay_itch_file scaled (Some xs) (atof (argv ! 3))))) \<and>
         fst (server_main atoi atof scaled env argv) \<noteq> Exit 1 \<and>
         hd (snd (replay_itch_file scaled (Some xs) (atof (argv ! 3)))) = Starting (atof (argv ! 3)) \<and>
         (atof (argv ! 3) \<le> 0 \<longrightarrow>
            sleeps (snd (replay_itch_file scaled (Some xs) (atof (argv ! 3)))) = [])"
proof -
  have "server_main atoi atof scaled env argv =
           (if accept_returns env then Exit 0 else Joining,
            Some (snd (replay_itch_file scaled (Some xs) (atof (argv ! 3)))))"
    using assms by (simp add: server_main_def parse_args_def Let_def)
  then show ?thesis using replay_itch_file_unpaced[of scaled xs "atof (argv ! 3)"] by simp
qed

text \<open>
  The file of two messages 50 ms apart, replayed with the multiplier 0 and with the
  multiplier 1, for which the quotient is the difference of the timestamps itself.
\<close>

lemma sample_replay_unpaced:
  "snd (replay_itch_file unscaled (Some [Rd (system_event @ system_event_later)]) 0)
     = [Starting 0, Broadcast system_event, Broadcast system_event_later, End_of_file,
        Replay_complete 2 24]"
  by (simp add: replay_eval system_event_def system_event_later_def)

lemma sample_replay_paced:
  "snd (replay_itch_file unscaled (Some [Rd (system_event @ system_event_later)]) 1)
     = [Starting 1, Broadcast system_event, Nanosleep 0 50000000,
        Broadcast system_event_later, End_of_file, Replay_complete 2 24]"
  by (simp add: replay_eval system_event_def system_event_later_def)

theorem nonpositive_speed_replays_unpaced_witness:
  "(4::nat) \<le> length [''itch_replay_server'', ''sample.itch'', ''9999'', ''0''] \<and>
   socket_ok sample_env \<and> setsockopt_ok sample_env \<and> bind_ok sample_env \<and>
   listen_ok sample_env \<and>
   fopen_result sample_env = Some [Rd (system_event @ system_event_later)] \<and>
   reads_as (0::real) ''0'' \<le> 0 \<and>
   server_main (reads_as 9999) (reads_as 0) unscaled sample_env
       [''itch_replay_server'', ''sample.itch'', ''9999'', ''0'']
     = (Joining, Some [Starting 0, Broadcast system_event, Broadcast system_event_later,
                       End_of_file, Replay_complete 2 24]) \<and>
   sleeps (snd (replay_itch_file unscaled (Some [Rd (system_event @ system_event_later)]) 0)) = [] \<and>
   sleeps (snd (replay_itch_file unscaled (Some [Rd (system_event @ system_event_later)]) 1))
     = [Nanosleep 0 50000000]"
  using nonpositive_speed_replays_unpaced[of "[''itch_replay_server'', ''sample.itch'', ''9999'', ''0'']"
      sample_env "[Rd (system_event @ system_event_later)]" "reads_as 9999" "reads_as 0" unscaled]
    sample_replay_unpaced sample_replay_paced
  by (simp add: sample_env_def reads_as_def sleeps_def)

text \<open>
  Claim C8 as stated fails: started with the speed argument \<open>0\<close>, the program reports no
  argument error and replays the file, both messages, with the multiplier 0.
\<close>

theorem zero_speed_accepted_counterexample:
  "reads_as (0::real) ''0'' \<le> 0 \<and>
   fst (server_main (reads_as 9999) (reads_as 0) unscaled sample_env
       [''itch_replay_server'', ''sample.itch'', ''9999'', ''0'']) \<noteq> Exit 1 \<and>
   snd (server_main (reads_as 9999) (reads_as 0) unscaled sample_env
       [''itch_replay_server'', ''sample.itch'', ''9999'', ''0''])
     = Some [Starting 0, Broadcast system_event, Broadcast system_event_later, End_of_file,
             Replay_complete 2 24]"
  using sample_replay_unpaced
  by (simp add: server_main_def parse_args_def sample_env_def reads_as_def Let_def)

end
